theory Spec2Isabelle
  imports Main "HOL-Library.Sublist"
begin

section \<open>Texts and characters\<close>

text \<open>
  A text is a \<^typ>\<open>string\<close>, and a character of it a code unit below 256: ASCII and
  the Latin-1 supplement. On these the definitions follow the JavaScript string and
  regular-expression operations of \<^verbatim>\<open>main.ts\<close>. \<^verbatim>\<open>toLowerCase\<close> maps A-Z and the
  capitals 0xC0-0xDE (the multiplication sign 0xD7 apart) to the character 32 places
  up. Under the \<^verbatim>\<open>i\<close> flag two characters are equal when their canonical forms are:
  a-z and the small letters 0xE0-0xFE (the division sign 0xF7 apart) have the character
  32 places down as canonical form. The upper-case forms of 0xB5 and 0xFF lie beyond
  code unit 255 and are shared with no character below 256, and that of 0xDF is two
  characters long, so these three are their own canonical forms, as every other
  character is. \<^verbatim>\<open>\w\<close> is an ASCII letter, a digit or the underscore; the line
  terminators are LF and CR; \<^verbatim>\<open>trim\<close> strips TAB, LF, VT, FF, CR, space and the
  no-break space 0xA0.
\<close>

definition isUpperAscii :: "char \<Rightarrow> bool" where
  "isUpperAscii c = (65 \<le> (of_char c :: nat) \<and> (of_char c :: nat) \<le> 90)"

definition isLowerAscii :: "char \<Rightarrow> bool" where
  "isLowerAscii c = (97 \<le> (of_char c :: nat) \<and> (of_char c :: nat) \<le> 122)"

definition isDigit :: "char \<Rightarrow> bool" where
  "isDigit c = (48 \<le> (of_char c :: nat) \<and> (of_char c :: nat) \<le> 57)"

definition isUpperLatin1 :: "char \<Rightarrow> bool" where
  "isUpperLatin1 c =
     (192 \<le> (of_char c :: nat) \<and> (of_char c :: nat) \<le> 222 \<and> (of_char c :: nat) \<noteq> 215)"

definition isLowerLatin1 :: "char \<Rightarrow> bool" where
  "isLowerLatin1 c =
     (224 \<le> (of_char c :: nat) \<and> (of_char c :: nat) \<le> 254 \<and> (of_char c :: nat) \<noteq> 247)"

definition toLowerChar :: "char \<Rightarrow> char" where
  "toLowerChar c =
     (if isUpperAscii c \<or> isUpperLatin1 c then char_of ((of_char c :: nat) + 32) else c)"

text \<open>\<open>Canonicalize\<close> of the pattern language, for a pattern with the \<^verbatim>\<open>i\<close> flag.\<close>

definition canonicalize :: "char \<Rightarrow> char" where
  "canonicalize c =
     (if isLowerAscii c \<or> isLowerLatin1 c then char_of ((of_char c :: nat) - 32) else c)"

text \<open>\<^verbatim>\<open>String.prototype.toLowerCase\<close>.\<close>

definition toLowerCase :: "string \<Rightarrow> string" where
  "toLowerCase s = map toLowerChar s"

text \<open>The class \<^verbatim>\<open>\w\<close> of a regular expression without the \<^verbatim>\<open>u\<close> flag.\<close>

definition isWordChar :: "char \<Rightarrow> bool" where
  "isWordChar c = (isUpperAscii c \<or> isLowerAscii c \<or> isDigit c \<or> c = CHR ''_'')"

text \<open>The characters at which \<^verbatim>\<open>^\<close>, \<^verbatim>\<open>$\<close> and \<^verbatim>\<open>.\<close> stop under the \<^verbatim>\<open>m\<close> flag.\<close>

definition isLineTerminator :: "char \<Rightarrow> bool" where
  "isLineTerminator c = (c = CHR 0x0A \<or> c = CHR 0x0D)"

definition isWhiteSpace :: "char \<Rightarrow> bool" where
  "isWhiteSpace c = (c = CHR 0x09 \<or> c = CHR 0x0A \<or> c = CHR 0x0B \<or> c = CHR 0x0C
                     \<or> c = CHR 0x0D \<or> c = CHR 0x20 \<or> c = CHR 0xA0)"

text \<open>\<^verbatim>\<open>String.prototype.trim\<close>.\<close>

definition trim :: "string \<Rightarrow> string" where
  "trim s = rev (dropWhile isWhiteSpace (rev (dropWhile isWhiteSpace s)))"

text \<open>\<^verbatim>\<open>s.split(sep)\<close> for a one-character separator: never the empty array.\<close>

fun splitOn :: "char \<Rightarrow> string \<Rightarrow> string list" where
  "splitOn sep [] = [[]]"
| "splitOn sep (c # cs) =
     (if c = sep then [] # splitOn sep cs
      else (case splitOn sep cs of
              [] \<Rightarrow> [[c]]
            | x # xs \<Rightarrow> (c # x) # xs))"

text \<open>\<^verbatim>\<open>s.includes(t)\<close>: \<open>t\<close> occurs in \<open>s\<close> as a contiguous substring.\<close>

fun includesStr :: "string \<Rightarrow> string \<Rightarrow> bool" where
  "includesStr [] t = (t = [])"
| "includesStr (c # cs) t = (prefix t (c # cs) \<or> includesStr cs t)"

text \<open>
  Equality of two characters, and of two texts, under the \<^verbatim>\<open>i\<close> flag: the matcher
  compares the canonical forms.
\<close>

definition ciEqChar :: "char \<Rightarrow> char \<Rightarrow> bool" where
  "ciEqChar a b = (canonicalize a = canonicalize b)"

definition ciEq :: "string \<Rightarrow> string \<Rightarrow> bool" where
  "ciEq s t = (map canonicalize s = map canonicalize t)"

section \<open>Settings\<close>

record settings =
  existingFilesOnly :: bool
  specifiedDirectory :: string
  excludedBlocks :: string
  blacklistedStrings :: string
  whitelistedStrings :: string
  linksToRemove :: string
  debugMode :: bool

definition DEFAULT_SETTINGS :: settings where
  "DEFAULT_SETTINGS =
     \<lparr> existingFilesOnly = False, specifiedDirectory = [], excludedBlocks = [],
       blacklistedStrings = [], whitelistedStrings = [], linksToRemove = [],
       debugMode = False \<rparr>"

text \<open>
  \<^verbatim>\<open>.split(',').map((s) => s.trim().toLowerCase()).filter(Boolean)\<close>, the parse of the
  three filter options, and the same without lower-casing for \<^verbatim>\<open>linksToRemove\<close>.
\<close>

definition parseList :: "string \<Rightarrow> string list" where
  "parseList s = filter (\<lambda>x. x \<noteq> []) (map (\<lambda>x. toLowerCase (trim x)) (splitOn CHR '','' s))"

definition parseLinksToRemove :: "string \<Rightarrow> string list" where
  "parseLinksToRemove s = filter (\<lambda>x. x \<noteq> []) (map trim (splitOn CHR '','' s))"

section \<open>The vault\<close>

text \<open>
  The host's file tree (\<^verbatim>\<open>TFile\<close>, \<^verbatim>\<open>TFolder\<close>) and the text of each document,
  kept by path. A document whose path has no text in the store cannot be read:
  \<^verbatim>\<open>vault.read\<close> rejects there. \<^verbatim>\<open>vault.modify\<close> stores the new text.
\<close>

datatype tabstract =
    TFile (path: string) (extension: string) (basename: string)
  | TFolder (path: string) (children: "tabstract list")

type_synonym store = "string \<rightharpoonup> string"

fun allLoadedFiles :: "tabstract \<Rightarrow> tabstract list" where
  "allLoadedFiles (TFile p e b) = [TFile p e b]"
| "allLoadedFiles (TFolder p cs) = TFolder p cs # concat (map allLoadedFiles cs)"

definition getAbstractFileByPath :: "tabstract \<Rightarrow> string \<Rightarrow> tabstract option" where
  "getAbstractFileByPath rt p = find (\<lambda>n. path n = p) (allLoadedFiles rt)"

definition isTFile :: "tabstract option \<Rightarrow> bool" where
  "isTFile n = (case n of Some (TFile _ _ _) \<Rightarrow> True | _ \<Rightarrow> False)"

definition read :: "store \<Rightarrow> tabstract \<Rightarrow> string option" where
  "read sto f = sto (path f)"

definition modify :: "store \<Rightarrow> tabstract \<Rightarrow> string \<Rightarrow> store" where
  "modify sto f text = sto(path f \<mapsto> text)"

section \<open>Section-aware linking\<close>

subsection \<open>Splitting into sections\<close>

text \<open>
  \<^verbatim>\<open>content.split(/^(#.*$)/m)\<close>. The pattern matches at a line start (the start of the
  text or just after a line terminator) where the character is \<^verbatim>\<open>#\<close>, and takes the
  rest of the line. The result alternates the text between two matches and the captured
  match, and ends with the text after the last match; the pattern matches no empty
  string, so the empty text gives one empty chunk. The flag says whether the position
  is a line start.
\<close>

function splitHeadings :: "bool \<Rightarrow> string \<Rightarrow> string list" where
  "splitHeadings lineStart [] = [[]]"
| "splitHeadings lineStart (c # cs) =
     (if lineStart \<and> c = CHR ''#'' then
        [] # (c # takeWhile (\<lambda>x. \<not> isLineTerminator x) cs)
           # splitHeadings False (dropWhile (\<lambda>x. \<not> isLineTerminator x) cs)
      else (case splitHeadings (isLineTerminator c) cs of
              [] \<Rightarrow> [[c]]
            | b # rest \<Rightarrow> (c # b) # rest))"
  by pat_completeness auto
termination
  by (relation "measure (\<lambda>(ls, s). length s)")
     (auto simp: length_dropWhile_le less_Suc_eq_le)

definition splitSections :: "string \<Rightarrow> string list" where
  "splitSections content = splitHeadings True content"

text \<open>
  The shape of the result of the split. A body chunk holds no heading: no \<^verbatim>\<open>#\<close> at a
  line start inside it. A heading chunk is one line that starts with \<^verbatim>\<open>#\<close>. Bodies
  and headings alternate, starting and ending with a body; a heading follows a line
  start, and the body after a heading is empty or starts with the line terminator that
  ended the heading.
\<close>

fun noHeading :: "bool \<Rightarrow> string \<Rightarrow> bool" where
  "noHeading lineStart [] = True"
| "noHeading lineStart (c # cs) = (\<not> (lineStart \<and> c = CHR ''#'') \<and> noHeading (isLineTerminator c) cs)"

definition lineStartAfter :: "bool \<Rightarrow> string \<Rightarrow> bool" where
  "lineStartAfter lineStart b = (if b = [] then lineStart else isLineTerminator (last b))"

definition isHeadingLine :: "string \<Rightarrow> bool" where
  "isHeadingLine h = (prefix ''#'' h \<and> list_all (\<lambda>x. \<not> isLineTerminator x) h)"

definition afterHeading :: "string \<Rightarrow> bool" where
  "afterHeading b = (case b of [] \<Rightarrow> True | c # _ \<Rightarrow> isLineTerminator c)"

fun sectionsOK :: "bool \<Rightarrow> string list \<Rightarrow> bool" where
  "sectionsOK lineStart [] = False"
| "sectionsOK lineStart [b] = noHeading lineStart b"
| "sectionsOK lineStart (b # h # rest) =
     (noHeading lineStart b \<and> lineStartAfter lineStart b \<and> isHeadingLine h
      \<and> (case rest of [] \<Rightarrow> False | b' # _ \<Rightarrow> afterHeading b')
      \<and> sectionsOK False rest)"

subsection \<open>The link pattern\<close>

text \<open>
  \<^verbatim>\<open>escapeRegExp\<close> puts a backslash before each syntax character of the pattern
  language. \<open>literalOf\<close> is how the pattern compiler reads a source made of plain
  characters and escaped syntax characters: as the literal text it matches.
\<close>

definition isSyntaxChar :: "char \<Rightarrow> bool" where
  "isSyntaxChar c = (c \<in> set ''.*+?^${}()|[]'' \<or> c = CHR 0x5C)"

fun escapeRegExp :: "string \<Rightarrow> string" where
  "escapeRegExp [] = []"
| "escapeRegExp (c # cs) =
     (if isSyntaxChar c then CHR 0x5C # c # escapeRegExp cs else c # escapeRegExp cs)"

fun literalOf :: "string \<Rightarrow> string option" where
  "literalOf [] = Some []"
| "literalOf [c] = (if isSyntaxChar c then None else Some [c])"
| "literalOf (c # d # r) =
     (if c = CHR 0x5C then
        (if isSyntaxChar d then map_option ((#) d) (literalOf r) else None)
      else if isSyntaxChar c then None
      else map_option ((#) c) (literalOf (d # r)))"

text \<open>
  The pattern \<^verbatim>\<open>(?<!\[\[)\b(WORD)\b(?!\]\])\<close> with the flags \<^verbatim>\<open>gi\<close>, where
  \<^verbatim>\<open>escapeRegExp\<close> has made every character of the word literal
  (\<open>literalOf_escapeRegExp\<close> below). A position of the
  chunk is given by the text to its left, reversed, and the text from it on.
\<close>

definition wordBefore :: "string \<Rightarrow> bool" where
  "wordBefore left = (case left of [] \<Rightarrow> False | c # _ \<Rightarrow> isWordChar c)"

definition wordAfter :: "string \<Rightarrow> bool" where
  "wordAfter rest = (case rest of [] \<Rightarrow> False | c # _ \<Rightarrow> isWordChar c)"

text \<open>\<^verbatim>\<open>\b\<close>: exactly one of the two neighbours is a word character.\<close>

definition wordBoundary :: "string \<Rightarrow> string \<Rightarrow> bool" where
  "wordBoundary left rest = (wordBefore left \<noteq> wordAfter rest)"

definition linkMatchAt :: "string \<Rightarrow> string \<Rightarrow> string \<Rightarrow> bool" where
  "linkMatchAt word left rest =
     (\<not> prefix ''[['' left
      \<and> wordBoundary left rest
      \<and> length word \<le> length rest
      \<and> ciEq (take (length word) rest) word
      \<and> wordBoundary (rev (take (length word) rest) @ left) (drop (length word) rest)
      \<and> \<not> prefix '']]'' (drop (length word) rest))"

text \<open>
  \<^verbatim>\<open>fileExists\<close>: strip a final \<^verbatim>\<open>.md\<close>, append \<^verbatim>\<open>.md\<close>, and ask the vault for a
  file at that path.
\<close>

definition stripMd :: "string \<Rightarrow> string" where
  "stripMd link = (if suffix ''.md'' link then take (length link - 3) link else link)"

definition fileExists :: "tabstract \<Rightarrow> string \<Rightarrow> bool" where
  "fileExists rt link = isTFile (getAbstractFileByPath rt (stripMd link @ ''.md''))"

text \<open>The replacement callback of \<^verbatim>\<open>linkWords\<close>.\<close>

definition wrapMatch :: "bool \<Rightarrow> tabstract \<Rightarrow> string \<Rightarrow> string" where
  "wrapMatch existingOnly rt m =
     (if existingOnly \<and> \<not> fileExists rt m then m else ''[['' @ m @ '']]'')"

text \<open>
  \<^verbatim>\<open>chunk.replace(pattern, callback)\<close> with the \<^verbatim>\<open>g\<close> flag: the matches are found from
  left to right in the chunk as it was before the call, each search starting where the
  previous match ended, and one character further after an empty match.
\<close>

function replaceFrom :: "(string \<Rightarrow> string) \<Rightarrow> string \<Rightarrow> string \<Rightarrow> string \<Rightarrow> string" where
  "replaceFrom f word left rest =
     (if linkMatchAt word left rest then
        (if word = [] then
           f [] @ (case rest of
                     [] \<Rightarrow> []
                   | c # cs \<Rightarrow> c # replaceFrom f word (c # left) cs)
         else f (take (length word) rest)
              @ replaceFrom f word (rev (take (length word) rest) @ left)
                  (drop (length word) rest))
      else (case rest of
              [] \<Rightarrow> []
            | c # cs \<Rightarrow> c # replaceFrom f word (c # left) cs))"
  by pat_completeness auto
termination
  by (relation "measure (\<lambda>(f, word, left, rest). length rest)")
     (auto simp: linkMatchAt_def intro: diff_less)

definition replaceLinks :: "(string \<Rightarrow> string) \<Rightarrow> string \<Rightarrow> string \<Rightarrow> string" where
  "replaceLinks f word chunk = replaceFrom f word [] chunk"

subsection \<open>linkWords\<close>

text \<open>The test on a term inside the loop over \<^verbatim>\<open>wordsToLink\<close>.\<close>

definition linkable :: "string list \<Rightarrow> string list \<Rightarrow> string \<Rightarrow> bool" where
  "linkable blacklist whitelist word =
     (toLowerCase word \<notin> set blacklist
      \<and> (length whitelist = 0 \<or> toLowerCase word \<in> set whitelist))"

definition linkWord :: "settings \<Rightarrow> tabstract \<Rightarrow> string \<Rightarrow> string \<Rightarrow> string" where
  "linkWord cfg rt chunk word =
     (if linkable (parseList (blacklistedStrings cfg)) (parseList (whitelistedStrings cfg)) word
      then replaceLinks (wrapMatch (existingFilesOnly cfg) rt) word chunk
      else chunk)"

definition isExcluded :: "settings \<Rightarrow> string \<Rightarrow> bool" where
  "isExcluded cfg heading =
     list_ex (\<lambda>block. includesStr (toLowerCase heading) block) (parseList (excludedBlocks cfg))"

text \<open>The loop over the sections, with the flag \<^verbatim>\<open>isExcludedBlock\<close>.\<close>

fun linkSections :: "settings \<Rightarrow> tabstract \<Rightarrow> string list \<Rightarrow> bool \<Rightarrow> string list \<Rightarrow> string list" where
  "linkSections cfg rt wordsToLink isExcludedBlock [] = []"
| "linkSections cfg rt wordsToLink isExcludedBlock (sec # secs) =
     (if prefix ''#'' sec then
        sec # linkSections cfg rt wordsToLink (isExcluded cfg sec) secs
      else if \<not> isExcludedBlock then
        foldl (linkWord cfg rt) sec wordsToLink
          # linkSections cfg rt wordsToLink isExcludedBlock secs
      else sec # linkSections cfg rt wordsToLink isExcludedBlock secs)"

definition linkWords :: "settings \<Rightarrow> tabstract \<Rightarrow> string \<Rightarrow> string list \<Rightarrow> string" where
  "linkWords cfg rt content wordsToLink =
     concat (linkSections cfg rt wordsToLink False (splitSections content))"

section \<open>The vocabulary\<close>

subsection \<open>getFileLinks\<close>

text \<open>
  One \<^verbatim>\<open>exec\<close> of \<^verbatim>\<open>/\[\[([^\]]+)\]\]/g\<close>: the leftmost position where two opening
  brackets are followed by a non-empty run of characters other than the closing bracket
  and then by two closing brackets. The result is the captured run and the text after
  the match, where the next \<^verbatim>\<open>exec\<close> starts.
\<close>

definition matchLinkAt :: "string \<Rightarrow> (string \<times> string) option" where
  "matchLinkAt s =
     (if prefix ''[['' s then
        (let inner = drop 2 s;
             run = takeWhile (\<lambda>x. x \<noteq> CHR '']'') inner;
             right = dropWhile (\<lambda>x. x \<noteq> CHR '']'') inner
         in if run \<noteq> [] \<and> prefix '']]'' right then Some (run, drop 2 right) else None)
      else None)"

fun execLink :: "string \<Rightarrow> (string \<times> string) option" where
  "execLink [] = None"
| "execLink (c # cs) =
     (case matchLinkAt (c # cs) of
        Some r \<Rightarrow> Some r
      | None \<Rightarrow> execLink cs)"

text \<open>\<^verbatim>\<open>match[1].split('|')[0].trim()\<close>.\<close>

definition linkTarget :: "string \<Rightarrow> string" where
  "linkTarget capture = trim (case splitOn CHR ''|'' capture of [] \<Rightarrow> [] | x # _ \<Rightarrow> x)"

text \<open>\<^verbatim>\<open>!link.includes('.') || link.endsWith('.md')\<close>.\<close>

definition keepLink :: "string \<Rightarrow> bool" where
  "keepLink link = (\<not> includesStr link ''.'' \<or> suffix ''.md'' link)"

text \<open>
  Following the words of the specification: the extension-like suffix of a target is its
  part from the last dot on; a target without a dot has none.
\<close>

definition specExtensionSuffix :: "string \<Rightarrow> string option" where
  "specExtensionSuffix link =
     (if CHR ''.'' \<in> set link
      then Some (CHR ''.'' # rev (takeWhile (\<lambda>c. c \<noteq> CHR ''.'') (rev link)))
      else None)"

lemma matchLinkAt_shorter: "matchLinkAt s = Some (cap, rest) \<Longrightarrow> length rest < length s"
proof -
  assume a: "matchLinkAt s = Some (cap, rest)"
  have "length (dropWhile (\<lambda>x. x \<noteq> CHR '']'') (drop 2 s)) \<le> length s"
    by (rule order_trans [OF length_dropWhile_le]) simp
  moreover have "prefix ''[['' s \<Longrightarrow> 2 \<le> length s"
    by (auto simp: prefix_def)
  moreover have "prefix '']]'' t \<Longrightarrow> 2 \<le> length t" for t :: string
    by (auto simp: prefix_def)
  ultimately show ?thesis
    using a by (fastforce simp: matchLinkAt_def Let_def split: if_splits)
qed

lemma execLink_shorter: "execLink s = Some (cap, rest) \<Longrightarrow> length rest < length s"
proof (induction s)
  case Nil
  then show ?case by simp
next
  case (Cons c cs)
  then show ?case
    by (auto split: option.splits dest: matchLinkAt_shorter)
qed

text \<open>The \<^verbatim>\<open>while\<close> loop of \<^verbatim>\<open>getFileLinks\<close>, with the array \<^verbatim>\<open>links\<close>.\<close>

function getLinksLoop :: "string \<Rightarrow> string list \<Rightarrow> string list" where
  "getLinksLoop content links =
     (case execLink content of
        None \<Rightarrow> links
      | Some (capture, rest) \<Rightarrow>
          (let link = linkTarget capture
           in getLinksLoop rest (if keepLink link then links @ [link] else links)))"
  by pat_completeness auto
termination
  by (relation "measure (\<lambda>(content, links). length content)")
     (auto dest: execLink_shorter)

definition extractLinks :: "string \<Rightarrow> string list" where
  "extractLinks content = getLinksLoop content []"

definition getFileLinks :: "store \<Rightarrow> tabstract \<Rightarrow> string list option" where
  "getFileLinks sto file = map_option extractLinks (read sto file)"

text \<open>The captures \<^verbatim>\<open>match[1]\<close> of the successive \<^verbatim>\<open>exec\<close> calls, in order.\<close>

function linkCaptures :: "string \<Rightarrow> string list" where
  "linkCaptures content =
     (case execLink content of
        None \<Rightarrow> []
      | Some (capture, rest) \<Rightarrow> capture # linkCaptures rest)"
  by pat_completeness auto
termination
  by (relation "measure length") (auto dest: execLink_shorter)

subsection \<open>processFolder, getVaultLinks, getWordsToLink\<close>

text \<open>A JavaScript \<^verbatim>\<open>Set\<close> of strings: the distinct elements in insertion order.\<close>

definition setAdd :: "string list \<Rightarrow> string \<Rightarrow> string list" where
  "setAdd links link = (if link \<in> set links then links else links @ [link])"

fun processFolder :: "store \<Rightarrow> tabstract \<Rightarrow> string list \<Rightarrow> string list option"
  and processChildren :: "store \<Rightarrow> tabstract list \<Rightarrow> string list \<Rightarrow> string list option" where
  "processFolder sto (TFolder p cs) links = processChildren sto cs links"
| "processFolder sto (TFile p e b) links = Some links"
| "processChildren sto [] links = Some links"
| "processChildren sto (TFile p e b # rest) links =
     (if e = ''md'' then
        (case getFileLinks sto (TFile p e b) of
           None \<Rightarrow> None
         | Some fileLinks \<Rightarrow> processChildren sto rest (foldl setAdd links fileLinks))
      else processChildren sto rest links)"
| "processChildren sto (TFolder p cs # rest) links =
     (case processFolder sto (TFolder p cs) links of
        None \<Rightarrow> None
      | Some links' \<Rightarrow> processChildren sto rest links')"

definition getVaultLinks :: "store \<Rightarrow> tabstract \<Rightarrow> string list option" where
  "getVaultLinks sto rt = processFolder sto rt []"

definition getWordsToLink :: "settings \<Rightarrow> store \<Rightarrow> tabstract \<Rightarrow> string list option" where
  "getWordsToLink cfg sto rt =
     (case getVaultLinks sto rt of
        None \<Rightarrow> None
      | Some vaultLinks \<Rightarrow>
          (let words = foldl setAdd [] vaultLinks;
               whitelist = parseList (whitelistedStrings cfg)
           in Some (if length whitelist > 0
                    then filter (\<lambda>word. toLowerCase word \<in> set whitelist) words
                    else words)))"

section \<open>Removing links\<close>

text \<open>
  The pattern \<^verbatim>\<open>\[\[LINK\]\]\<close> with the flags \<^verbatim>\<open>gi\<close>, the link made literal by
  \<^verbatim>\<open>escapeRegExp\<close>.
\<close>

definition removeMatchAt :: "string \<Rightarrow> string \<Rightarrow> bool" where
  "removeMatchAt link rest =
     (length link + 4 \<le> length rest
      \<and> ciEq (take (length link + 4) rest) (''[['' @ link @ '']]''))"

text \<open>
  The second argument of \<^verbatim>\<open>replace\<close> is the string \<^verbatim>\<open>link\<close>, which the language
  reads as a replacement template: \<^verbatim>\<open>$$\<close> stands for a dollar sign, \<^verbatim>\<open>$&\<close> for the
  matched text, \<^verbatim>\<open>$`\<close> for the text before the match and \<^verbatim>\<open>$'\<close> for the text after
  it. The pattern has no capture group, so \<^verbatim>\<open>$1\<close> ... \<^verbatim>\<open>$99\<close> and \<^verbatim>\<open>$<\<close> stay as
  they are, as does a dollar sign before any other character.
\<close>

fun getSubstitution :: "string \<Rightarrow> string \<Rightarrow> string \<Rightarrow> string \<Rightarrow> string" where
  "getSubstitution matched left right [] = []"
| "getSubstitution matched left right [c] = [c]"
| "getSubstitution matched left right (c # d # r) =
     (if c = CHR ''$'' \<and> d = CHR ''$'' then CHR ''$'' # getSubstitution matched left right r
      else if c = CHR ''$'' \<and> d = CHR ''&'' then matched @ getSubstitution matched left right r
      else if c = CHR ''$'' \<and> d = CHR 0x60 then left @ getSubstitution matched left right r
      else if c = CHR ''$'' \<and> d = CHR 0x27 then right @ getSubstitution matched left right r
      else c # getSubstitution matched left right (d # r))"

function removeFrom :: "string \<Rightarrow> string \<Rightarrow> string \<Rightarrow> string" where
  "removeFrom link left rest =
     (if removeMatchAt link rest then
        getSubstitution (take (length link + 4) rest) (rev left)
            (drop (length link + 4) rest) link
          @ removeFrom link (rev (take (length link + 4) rest) @ left)
              (drop (length link + 4) rest)
      else (case rest of
              [] \<Rightarrow> []
            | c # cs \<Rightarrow> c # removeFrom link (c # left) cs))"
  by pat_completeness auto
termination
  by (relation "measure (\<lambda>(link, left, rest). length rest)")
     (auto simp: removeMatchAt_def)

text \<open>The loop of \<^verbatim>\<open>removeLinks\<close> over \<^verbatim>\<open>linksToRemove\<close>.\<close>

definition removeLinks :: "string \<Rightarrow> string list \<Rightarrow> string" where
  "removeLinks content links = foldl (\<lambda>newContent link. removeFrom link [] newContent) content links"

section \<open>The plugin\<close>

text \<open>
  The state of \<^verbatim>\<open>AutoLinkerPlugin\<close> and of the host it talks to: the settings, the
  field \<^verbatim>\<open>lastChanges\<close>, the vault (its tree and the texts), the file of the active
  Markdown view if there is one, and the notices shown so far, oldest first. A notice
  keeps the values its message interpolates.
\<close>

record change =
  "file" :: tabstract
  oldContent :: string

datatype notice =
    AutoLinkingCompleted string
  | NoActiveMarkdownFile
  | FailedToAutoLink string
  | InvalidDirectory
  | LinkingExtended nat string
  | RemovedLinks nat string
  | NoChangesToUndo
  | UndidChanges nat

record plugin =
  settings :: settings
  lastChanges :: "change list"
  root :: tabstract
  texts :: store
  activeFile :: "tabstract option"
  notices :: "notice list"

definition notify :: "notice \<Rightarrow> plugin \<Rightarrow> plugin" where
  "notify n st = st\<lparr>notices := notices st @ [n]\<rparr>"

text \<open>
  \<^verbatim>\<open>autoLinkFile\<close>. A rejected read, of the file itself or of any document scanned
  for the vocabulary, lands in the \<^verbatim>\<open>catch\<close> branch.
\<close>

definition autoLinkFile :: "plugin \<Rightarrow> tabstract \<Rightarrow> plugin" where
  "autoLinkFile st f =
     (case read (texts st) f of
        None \<Rightarrow> notify (FailedToAutoLink (path f)) st
      | Some content \<Rightarrow>
          (case getWordsToLink (settings st) (texts st) (root st) of
             None \<Rightarrow> notify (FailedToAutoLink (path f)) st
           | Some wordsToLink \<Rightarrow>
               (let linkedContent = linkWords (settings st) (root st) content wordsToLink
                in if content \<noteq> linkedContent then
                     st\<lparr>lastChanges := lastChanges st @ [\<lparr>file = f, oldContent = content\<rparr>],
                        texts := modify (texts st) f linkedContent\<rparr>
                   else st)))"

definition autoLinkCurrentFile :: "plugin \<Rightarrow> plugin" where
  "autoLinkCurrentFile st =
     (let st1 = st\<lparr>lastChanges := []\<rparr>
      in case activeFile st1 of
           Some f \<Rightarrow> notify (AutoLinkingCompleted (basename f)) (autoLinkFile st1 f)
         | None \<Rightarrow> notify NoActiveMarkdownFile st1)"

text \<open>\<^verbatim>\<open>getMarkdownFiles\<close>: the Markdown files below a folder, depth first.\<close>

fun getMarkdownFiles :: "tabstract \<Rightarrow> tabstract list"
  and markdownChildren :: "tabstract list \<Rightarrow> tabstract list" where
  "getMarkdownFiles (TFolder p cs) = markdownChildren cs"
| "getMarkdownFiles (TFile p e b) = []"
| "markdownChildren [] = []"
| "markdownChildren (TFile p e b # rest) =
     (if e = ''md'' then TFile p e b # markdownChildren rest else markdownChildren rest)"
| "markdownChildren (TFolder p cs # rest) =
     getMarkdownFiles (TFolder p cs) @ markdownChildren rest"

definition extendLinkingToDirectory :: "plugin \<Rightarrow> plugin" where
  "extendLinkingToDirectory st =
     (case getAbstractFileByPath (root st) (specifiedDirectory (settings st)) of
        Some (TFolder p cs) \<Rightarrow>
          (let files = getMarkdownFiles (TFolder p cs)
           in notify (LinkingExtended (length files) (specifiedDirectory (settings st)))
                (foldl autoLinkFile st files))
      | _ \<Rightarrow> notify InvalidDirectory st)"

text \<open>
  \<^verbatim>\<open>removeLinksFromDirectory\<close> has no \<^verbatim>\<open>try\<close>: a rejected read ends the operation
  at that file, with the files before it already rewritten and no notice. The result
  is then \<open>Inl\<close> of the path of the file and the state reached.
\<close>

datatype error = ReadRejected string

fun removeLoop ::
  "string list \<Rightarrow> plugin \<Rightarrow> nat \<Rightarrow> tabstract list \<Rightarrow> (error \<times> plugin) + (plugin \<times> nat)" where
  "removeLoop links st totalRemoved [] = Inr (st, totalRemoved)"
| "removeLoop links st totalRemoved (f # files) =
     (case read (texts st) f of
        None \<Rightarrow> Inl (ReadRejected (path f), st)
      | Some content \<Rightarrow>
          (let newContent = removeLinks content links
           in if content \<noteq> newContent
              then removeLoop links (st\<lparr>texts := modify (texts st) f newContent\<rparr>)
                     (totalRemoved + 1) files
              else removeLoop links st totalRemoved files))"

definition removeLinksFromDirectory :: "plugin \<Rightarrow> (error \<times> plugin) + plugin" where
  "removeLinksFromDirectory st =
     (case getAbstractFileByPath (root st) (specifiedDirectory (settings st)) of
        Some (TFolder p cs) \<Rightarrow>
          (let files = getMarkdownFiles (TFolder p cs);
               links = parseLinksToRemove (linksToRemove (settings st))
           in case removeLoop links st 0 files of
                Inl e \<Rightarrow> Inl e
              | Inr (st', totalRemoved) \<Rightarrow>
                  Inr (notify (RemovedLinks totalRemoved (specifiedDirectory (settings st))) st'))
      | _ \<Rightarrow> Inr (notify InvalidDirectory st))"

text \<open>The state after \<^verbatim>\<open>removeLinksFromDirectory\<close>, however it ended.\<close>

definition stateAfter :: "(error \<times> plugin) + plugin \<Rightarrow> plugin" where
  "stateAfter r = (case r of Inl (e, st) \<Rightarrow> st | Inr st \<Rightarrow> st)"

text \<open>\<^verbatim>\<open>undoLastChanges\<close>.\<close>

definition undoLastChanges :: "plugin \<Rightarrow> plugin" where
  "undoLastChanges st =
     (if length (lastChanges st) = 0 then notify NoChangesToUndo st
      else (notify (UndidChanges (length (lastChanges st)))
              (st\<lparr>texts := foldl (\<lambda>sto ch. modify sto (file ch) (oldContent ch))
                                (texts st) (lastChanges st)\<rparr>))
           \<lparr>lastChanges := []\<rparr>)"

text \<open>The loop of \<^verbatim>\<open>undoLastChanges\<close> over the records, on the texts alone.\<close>

definition restore :: "store \<Rightarrow> change list \<Rightarrow> store" where
  "restore sto cs = foldl (\<lambda>sto ch. modify sto (file ch) (oldContent ch)) sto cs"

text \<open>The files that the two directory operations visit.\<close>

definition directoryFiles :: "plugin \<Rightarrow> tabstract list" where
  "directoryFiles st =
     (case getAbstractFileByPath (root st) (specifiedDirectory (settings st)) of
        Some (TFolder p cs) \<Rightarrow> getMarkdownFiles (TFolder p cs)
      | _ \<Rightarrow> [])"

subsection \<open>A small vault\<close>

definition exRoot :: tabstract where
  "exRoot = TFolder ''/''
     [TFile ''Index.md'' ''md'' ''Index'',
      TFile ''Log.md'' ''md'' ''Log'',
      TFolder ''notes''
        [TFile ''notes/Trip.md'' ''md'' ''Trip'',
         TFile ''notes/Plan.md'' ''md'' ''Plan'']]"

definition exTexts :: store where
  "exTexts = map_of
     [(''Index.md'', ''See [[Paris]] and [[Rome|the city]].''),
      (''Log.md'', ''Paris again''),
      (''notes/Trip.md'', ''I visited Paris and Rome.''),
      (''notes/Plan.md'', ''Next: [[Paris]], then Rome.'')]"

definition exState :: plugin where
  "exState =
     \<lparr> settings = DEFAULT_SETTINGS\<lparr>specifiedDirectory := ''notes'', linksToRemove := ''Paris''\<rparr>,
       lastChanges = [],
       root = exRoot,
       texts = exTexts,
       activeFile = Some (TFile ''Log.md'' ''md'' ''Log''),
       notices = [] \<rparr>"

definition exCfg :: settings where
  "exCfg = DEFAULT_SETTINGS\<lparr>excludedBlocks := ''Tasks''\<rparr>"

definition exDoc :: string where
  "exDoc = ''Paris\<newline># My Tasks Paris\<newline>Paris\<newline>## Other\<newline>Paris''"

definition wlCfg :: settings where
  "wlCfg = DEFAULT_SETTINGS\<lparr>whitelistedStrings := ''Alpha''\<rparr>"

definition bothCfg :: settings where
  "bothCfg = DEFAULT_SETTINGS\<lparr>whitelistedStrings := ''Alpha'', blacklistedStrings := ''alpha, the''\<rparr>"

definition gateRoot :: tabstract where
  "gateRoot = TFolder ''/'' [TFile ''a b a.md'' ''md'' ''a b a'', TFile ''B.md'' ''md'' ''B'']"

definition gateCfg :: settings where
  "gateCfg = DEFAULT_SETTINGS\<lparr>existingFilesOnly := True\<rparr>"

definition exWords :: "string list" where
  "exWords = [''Paris'', ''New York City'', ''York'']"

definition exText :: string where
  "exText = ''Paris and New York City. [[paris]]\<newline># Paris\<newline>york''"

text \<open>Texts, words and settings with letters of the Latin-1 supplement.\<close>

definition latinText :: string where
  "latinText = ''a NA'' @ [CHR 0xCF] @ ''VE b x]y c[d''"

definition latinWords :: "string list" where
  "latinWords = [''na'' @ [CHR 0xEF] @ ''ve'', ''x]y'', ''c[d'']"

definition latinCfg :: settings where
  "latinCfg = DEFAULT_SETTINGS\<lparr>excludedBlocks := ''T'' @ [CHR 0xC2] @ ''CHES''\<rparr>"

definition latinDoc :: string where
  "latinDoc = ''# T'' @ [CHR 0xE2] @ ''ches\<newline>Paris''"

definition latinBlCfg :: settings where
  "latinBlCfg = DEFAULT_SETTINGS\<lparr>blacklistedStrings := [CHR 0xE9] @ ''lan''\<rparr>"

definition latinWlCfg :: settings where
  "latinWlCfg = DEFAULT_SETTINGS\<lparr>whitelistedStrings := [CHR 0xC9] @ ''COLE''\<rparr>"

section \<open>Escaped words are literal patterns\<close>

lemma literalOf_escapeRegExp: "literalOf (escapeRegExp s) = Some s"
proof (induction s)
  case Nil
  then show ?case by simp
next
  case (Cons c s)
  show ?case
  proof (cases "isSyntaxChar c")
    case True
    with Cons show ?thesis by simp
  next
    case False
    then have nb: "c \<noteq> CHR 0x5C" by (auto simp: isSyntaxChar_def)
    show ?thesis
    proof (cases "escapeRegExp s")
      case Nil
      with Cons have "s = []" by simp
      with False show ?thesis by simp
    next
      case (Cons d r)
      with Cons.IH False nb show ?thesis by simp
    qed
  qed
qed

section \<open>The partition law\<close>

lemma splitHeadings_not_Nil: "splitHeadings ls s \<noteq> []"
  by (induction ls s rule: splitHeadings.induct) (auto split: list.splits)

lemma concat_splitHeadings: "concat (splitHeadings ls s) = s"
proof (induction ls s rule: splitHeadings.induct)
  case (1 lineStart)
  show ?case by simp
next
  case (2 lineStart c cs)
  show ?case
  proof (cases "lineStart \<and> c = CHR ''#''")
    case True
    with 2 show ?thesis by simp
  next
    case False
    with 2 show ?thesis
      by (cases "splitHeadings (isLineTerminator c) cs") (auto simp: splitHeadings_not_Nil)
  qed
qed

lemma linkSections_no_words: "linkSections cfg rt [] ex secs = secs"
  by (induction secs arbitrary: ex) auto

text \<open>
  C2. Splitting a text into sections and joining the sections again gives the text back,
  whatever the text is; and \<^verbatim>\<open>linkWords\<close> with an empty word list returns the text
  unchanged.
\<close>

theorem partition_law:
  "concat (splitSections content) = content \<and> linkWords cfg rt content [] = content"
  by (simp add: splitSections_def linkWords_def concat_splitHeadings linkSections_no_words)

section \<open>The shape of the sections\<close>

lemma noHeading_append:
  "noHeading ls (xs @ ys) = (noHeading ls xs \<and> noHeading (lineStartAfter ls xs) ys)"
  by (induction xs arbitrary: ls) (auto simp: lineStartAfter_def)

lemma dropWhile_afterHeading: "afterHeading (dropWhile (\<lambda>x. \<not> isLineTerminator x) cs)"
  by (induction cs) (auto simp: afterHeading_def)

lemma hd_split_afterHeading:
  "afterHeading s \<Longrightarrow> (case splitHeadings False s of [] \<Rightarrow> False | b' # _ \<Rightarrow> afterHeading b')"
  by (cases s) (auto simp: afterHeading_def split: list.splits)

lemma sectionsOK_Cons_body:
  assumes "sectionsOK (isLineTerminator c) (b # rest)" and "\<not> (ls \<and> c = CHR ''#'')"
  shows "sectionsOK ls ((c # b) # rest)"
proof (cases rest)
  case Nil
  with assms show ?thesis by simp
next
  case (Cons h rest')
  with assms show ?thesis by (auto simp: lineStartAfter_def)
qed

lemma sectionsOK_splitHeadings:
  "sectionsOK ls (splitHeadings ls s)"
proof (induction ls s rule: splitHeadings.induct)
  case (1 lineStart)
  show ?case by simp
next
  case (2 lineStart c cs)
  show ?case
  proof (cases "lineStart \<and> c = CHR ''#''")
    case True
    let ?r = "splitHeadings False (dropWhile (\<lambda>x. \<not> isLineTerminator x) cs)"
    have ok: "sectionsOK False ?r" using 2 True by simp
    have ah: "case ?r of [] \<Rightarrow> False | b' # _ \<Rightarrow> afterHeading b'"
      by (rule hd_split_afterHeading) (rule dropWhile_afterHeading)
    have hl: "isHeadingLine (c # takeWhile (\<lambda>x. \<not> isLineTerminator x) cs)"
      using True by (auto simp: isHeadingLine_def isLineTerminator_def list_all_iff dest: set_takeWhileD)
    show ?thesis
      using True ok ah hl by (simp add: lineStartAfter_def)
  next
    case False
    obtain b rest where br: "splitHeadings (isLineTerminator c) cs = b # rest"
      using splitHeadings_not_Nil by (cases "splitHeadings (isLineTerminator c) cs") auto
    have "sectionsOK (isLineTerminator c) (b # rest)"
      using 2 False br by auto
    then have "sectionsOK lineStart ((c # b) # rest)"
      using False by (rule sectionsOK_Cons_body)
    moreover have "splitHeadings lineStart (c # cs) = (c # b) # rest"
      using False br by (cases lineStart) auto
    ultimately show ?thesis by simp
  qed
qed

lemma takeWhile_line:
  "list_all (\<lambda>x. \<not> isLineTerminator x) l \<Longrightarrow> afterHeading r \<Longrightarrow>
   takeWhile (\<lambda>x. \<not> isLineTerminator x) (l @ r) = l
   \<and> dropWhile (\<lambda>x. \<not> isLineTerminator x) (l @ r) = r"
  by (induction l) (auto simp: afterHeading_def split: list.splits)

lemma splitHeadings_body_append:
  "noHeading ls b \<Longrightarrow>
   splitHeadings ls (b @ t)
     = (case splitHeadings (lineStartAfter ls b) t of
          [] \<Rightarrow> [b]
        | x # xs \<Rightarrow> (b @ x) # xs)"
proof (induction b arbitrary: ls)
  case Nil
  then show ?case
    by (simp add: lineStartAfter_def splitHeadings_not_Nil split: list.splits)
next
  case (Cons c b)
  have "lineStartAfter ls (c # b) = lineStartAfter (isLineTerminator c) b"
    by (simp add: lineStartAfter_def)
  with Cons show ?case
    by (auto split: list.splits)
qed

lemma concat_afterHeading:
  assumes "sectionsOK False secs" and "afterHeading (hd secs)"
  shows "afterHeading (concat secs)"
proof (cases "(False, secs)" rule: sectionsOK.cases)
  case (1 lineStart)
  with assms show ?thesis by simp
next
  case (2 lineStart b)
  with assms show ?thesis by simp
next
  case (3 lineStart b h rest)
  with assms have "b \<noteq> []"
    by (auto simp: lineStartAfter_def)
  with 3 assms show ?thesis
    by (cases b) (auto simp: afterHeading_def)
qed

lemma splitHeadings_heading:
  assumes "isHeadingLine h" and "afterHeading r"
  shows "splitHeadings True (h @ r) = [] # h # splitHeadings False r"
proof -
  obtain l where h: "h = CHR ''#'' # l" and l: "list_all (\<lambda>x. \<not> isLineTerminator x) l"
    using assms(1) by (cases h) (auto simp: isHeadingLine_def)
  show ?thesis
    using takeWhile_line [OF l assms(2)] by (simp add: h)
qed

lemma splitHeadings_concat:
  "sectionsOK ls secs \<Longrightarrow> splitHeadings ls (concat secs) = secs"
proof (induction ls secs rule: sectionsOK.induct)
  case (1 lineStart)
  then show ?case by simp
next
  case (2 lineStart b)
  then show ?case
    using splitHeadings_body_append [of lineStart b "[]"] by simp
next
  case (3 lineStart b h rest)
  then obtain b' rest' where rest: "rest = b' # rest'" and ah: "afterHeading b'"
    by (cases rest) auto
  have ok: "sectionsOK False rest" using 3 by simp
  have "afterHeading (concat rest)"
    using ok ah concat_afterHeading [of rest] by (simp add: rest)
  then have "splitHeadings True (h @ concat rest) = [] # h # splitHeadings False (concat rest)"
    using 3 by (simp add: splitHeadings_heading)
  also have "splitHeadings False (concat rest) = rest"
    using 3 by simp
  finally have "splitHeadings True (h @ concat rest) = [] # h # rest" .
  moreover have "noHeading lineStart b" and "lineStartAfter lineStart b"
    using 3 by simp_all
  ultimately show ?case
    using splitHeadings_body_append [of lineStart b "h @ concat rest"] by simp
qed


lemma afterHeading_no_hash: "afterHeading b \<Longrightarrow> \<not> prefix ''#'' b"
  by (cases b) (auto simp: afterHeading_def isLineTerminator_def)

lemma noHeading_no_hash: "noHeading True b \<Longrightarrow> \<not> prefix ''#'' b"
  by (cases b) auto

lemma sectionsOK_alternate:
  "sectionsOK ls secs \<Longrightarrow> ls \<or> afterHeading (hd secs) \<Longrightarrow> i < length secs \<Longrightarrow>
   prefix ''#'' (secs ! i) = odd i"
proof (induction ls secs arbitrary: i rule: sectionsOK.induct)
  case (1 lineStart)
  then show ?case by simp
next
  case (2 lineStart b)
  then show ?case
    using afterHeading_no_hash [of b] noHeading_no_hash [of b] by auto
next
  case (3 lineStart b h rest)
  have b: "\<not> prefix ''#'' b"
    using 3 afterHeading_no_hash [of b] noHeading_no_hash [of b] by auto
  have h: "prefix ''#'' h"
    using 3 by (simp add: isHeadingLine_def)
  show ?case
  proof (cases i)
    case 0
    with b show ?thesis by simp
  next
    case (Suc j)
    show ?thesis
    proof (cases j)
      case 0
      with Suc h show ?thesis by simp
    next
      case (Suc k)
      have "afterHeading (hd rest)"
        using 3 by (cases rest) auto
      then have "prefix ''#'' (rest ! k) = odd k"
        using 3 \<open>i = Suc j\<close> Suc by auto
      then show ?thesis
        using \<open>i = Suc j\<close> Suc by simp
    qed
  qed
qed

lemma length_linkSections: "length (linkSections cfg rt ws ex secs) = length secs"
  by (induction secs arbitrary: ex) auto

lemma linkSections_heading:
  "i < length secs \<Longrightarrow> prefix ''#'' (secs ! i) \<Longrightarrow> linkSections cfg rt ws ex secs ! i = secs ! i"
proof (induction secs arbitrary: ex i)
  case Nil
  then show ?case by simp
next
  case (Cons s secs)
  then show ?case by (cases i) auto
qed

lemma linkSections_hd_body:
  "\<not> prefix ''#'' s \<Longrightarrow>
   linkSections cfg rt ws ex (s # secs) ! 0 = (if ex then s else foldl (linkWord cfg rt) s ws)"
  by simp

lemma linkSections_after_heading:
  "Suc i < length secs \<Longrightarrow> prefix ''#'' (secs ! i) \<Longrightarrow> \<not> prefix ''#'' (secs ! Suc i) \<Longrightarrow>
   linkSections cfg rt ws ex secs ! Suc i
     = (if isExcluded cfg (secs ! i) then secs ! Suc i
        else foldl (linkWord cfg rt) (secs ! Suc i) ws)"
proof (induction secs arbitrary: ex i)
  case Nil
  then show ?case by simp
next
  case (Cons s secs)
  show ?case
  proof (cases i)
    case 0
    with Cons.prems obtain b rest where "secs = b # rest"
      by (cases secs) auto
    with 0 Cons.prems show ?thesis by simp
  next
    case (Suc j)
    with Cons show ?thesis by auto
  qed
qed

lemma includesStr_sublist: "includesStr s t = sublist t s"
  by (induction s) (auto simp: sublist_Cons_right)

lemma isExcluded_iff:
  "isExcluded cfg h = (\<exists>block \<in> set (parseList (excludedBlocks cfg)). sublist block (toLowerCase h))"
  by (simp add: isExcluded_def list_ex_iff includesStr_sublist)

text \<open>
  C6. The sections of a text alternate: the chunks at even positions are bodies, the
  chunks at odd positions are headings. \<^verbatim>\<open>linkWords\<close> returns every heading as it is,
  whatever the words. It returns the body after a heading as it is when the lower-cased
  heading contains one of the excluded-section rules as a substring, and runs the words
  over it otherwise. The first chunk, the body before any heading, is always scanned.
\<close>

theorem heading_exclusion:
  "linkWords cfg rt content words = concat (linkSections cfg rt words False (splitSections content))
   \<and> length (linkSections cfg rt words False (splitSections content))
       = length (splitSections content)
   \<and> (\<forall>i < length (splitSections content). prefix ''#'' (splitSections content ! i) = odd i)
   \<and> (\<forall>i < length (splitSections content). odd i \<longrightarrow>
        linkSections cfg rt words False (splitSections content) ! i = splitSections content ! i)
   \<and> (\<forall>block \<in> set (parseList (excludedBlocks cfg)).
        \<forall>i. Suc i < length (splitSections content) \<and> odd i
            \<and> sublist block (toLowerCase (splitSections content ! i)) \<longrightarrow>
        linkSections cfg rt words False (splitSections content) ! Suc i
          = splitSections content ! Suc i)
   \<and> (\<forall>i. Suc i < length (splitSections content) \<and> odd i
          \<and> \<not> isExcluded cfg (splitSections content ! i) \<longrightarrow>
        linkSections cfg rt words False (splitSections content) ! Suc i
          = foldl (linkWord cfg rt) (splitSections content ! Suc i) words)
   \<and> linkSections cfg rt words False (splitSections content) ! 0
       = foldl (linkWord cfg rt) (splitSections content ! 0) words"
proof -
  let ?secs = "splitSections content"
  have ok: "sectionsOK True ?secs"
    by (simp add: splitSections_def sectionsOK_splitHeadings)
  have alt: "prefix ''#'' (?secs ! i) = odd i" if "i < length ?secs" for i
    using sectionsOK_alternate [OF ok _ that] by simp
  have ne: "?secs \<noteq> []"
    by (simp add: splitSections_def splitHeadings_not_Nil)
  have first: "linkSections cfg rt words False ?secs ! 0 = foldl (linkWord cfg rt) (?secs ! 0) words"
  proof (cases ?secs)
    case Nil
    with ne show ?thesis by simp
  next
    case (Cons s rest)
    then have "\<not> prefix ''#'' s" using alt [of 0] by simp
    with Cons show ?thesis by simp
  qed
  have after: "linkSections cfg rt words False ?secs ! Suc i
        = (if isExcluded cfg (?secs ! i) then ?secs ! Suc i
           else foldl (linkWord cfg rt) (?secs ! Suc i) words)"
    if "Suc i < length ?secs" and "odd i" for i
    using that alt [of i] alt [of "Suc i"] by (intro linkSections_after_heading) auto
  show ?thesis
  proof (intro conjI allI ballI impI)
    show "linkWords cfg rt content words = concat (linkSections cfg rt words False ?secs)"
      by (simp add: linkWords_def)
    show "length (linkSections cfg rt words False ?secs) = length ?secs"
      by (rule length_linkSections)
    show "linkSections cfg rt words False ?secs ! 0 = foldl (linkWord cfg rt) (?secs ! 0) words"
      by (rule first)
  next
    fix i assume "i < length ?secs"
    then show "prefix ''#'' (?secs ! i) = odd i" by (rule alt)
  next
    fix i assume "i < length ?secs" and "odd i"
    then show "linkSections cfg rt words False ?secs ! i = ?secs ! i"
      using alt [of i] by (simp add: linkSections_heading)
  next
    fix block i
    assume "block \<in> set (parseList (excludedBlocks cfg))"
      and "Suc i < length ?secs \<and> odd i \<and> sublist block (toLowerCase (?secs ! i))"
    then show "linkSections cfg rt words False ?secs ! Suc i = ?secs ! Suc i"
      using after [of i] by (auto simp: isExcluded_iff)
  next
    fix i
    assume "Suc i < length ?secs \<and> odd i \<and> \<not> isExcluded cfg (?secs ! i)"
    then show "linkSections cfg rt words False ?secs ! Suc i
                 = foldl (linkWord cfg rt) (?secs ! Suc i) words"
      using after [of i] by simp
  qed
qed


text \<open>
  With the rule \<^verbatim>\<open>Tasks\<close>, the body under \<^verbatim>\<open># My Tasks Paris\<close> keeps its plain
  \<^verbatim>\<open>Paris\<close>; the body before it and the body under \<^verbatim>\<open>## Other\<close> are linked.
  The rule \<^verbatim>\<open>T\<close>, 0xC2, \<^verbatim>\<open>CHES\<close> is lower-cased to \<^verbatim>\<open>t\<close>, 0xE2, \<^verbatim>\<open>ches\<close> and
  excludes the body under the heading \<^verbatim>\<open># T\<close>, 0xE2, \<^verbatim>\<open>ches\<close>.
\<close>

theorem heading_exclusion_witness:
  "splitSections exDoc
     = [''Paris\<newline>'', ''# My Tasks Paris'', ''\<newline>Paris\<newline>'', ''## Other'', ''\<newline>Paris'']
   \<and> ''tasks'' \<in> set (parseList (excludedBlocks exCfg))
   \<and> sublist ''tasks'' (toLowerCase (splitSections exDoc ! 1))
   \<and> linkSections exCfg exRoot [''Paris''] False (splitSections exDoc) ! Suc 1
       = splitSections exDoc ! Suc 1
   \<and> linkWords exCfg exRoot exDoc [''Paris'']
       = ''[[Paris]]\<newline># My Tasks Paris\<newline>Paris\<newline>## Other\<newline>[[Paris]]''
   \<and> splitSections latinDoc = ['''', ''# T'' @ [CHR 0xE2] @ ''ches'', ''\<newline>Paris'']
   \<and> parseList (excludedBlocks latinCfg) = [''t'' @ [CHR 0xE2] @ ''ches'']
   \<and> linkSections latinCfg exRoot [''Paris''] False (splitSections latinDoc) ! Suc 1
       = splitSections latinDoc ! Suc 1
   \<and> linkWords latinCfg exRoot latinDoc [''Paris''] = latinDoc
   \<and> linkWords DEFAULT_SETTINGS exRoot latinDoc [''Paris'']
       = ''# T'' @ [CHR 0xE2] @ ''ches\<newline>[[Paris]]''"
proof -
  have s: "splitSections exDoc
     = [''Paris\<newline>'', ''# My Tasks Paris'', ''\<newline>Paris\<newline>'', ''## Other'', ''\<newline>Paris'']"
    by code_simp
  have h: "''tasks'' \<in> set (parseList (excludedBlocks exCfg))
           \<and> Suc 1 < length (splitSections exDoc) \<and> odd (1::nat)
           \<and> sublist ''tasks'' (toLowerCase (splitSections exDoc ! 1))"
    by code_simp
  have l: "linkWords exCfg exRoot exDoc [''Paris'']
       = ''[[Paris]]\<newline># My Tasks Paris\<newline>Paris\<newline>## Other\<newline>[[Paris]]''"
    by code_simp
  have sl: "splitSections latinDoc = ['''', ''# T'' @ [CHR 0xE2] @ ''ches'', ''\<newline>Paris'']"
    by code_simp
  have pl: "parseList (excludedBlocks latinCfg) = [''t'' @ [CHR 0xE2] @ ''ches'']"
    by code_simp
  have hl: "''t'' @ [CHR 0xE2] @ ''ches'' \<in> set (parseList (excludedBlocks latinCfg))
           \<and> Suc 1 < length (splitSections latinDoc) \<and> odd (1::nat)
           \<and> sublist (''t'' @ [CHR 0xE2] @ ''ches'') (toLowerCase (splitSections latinDoc ! 1))"
    by code_simp
  have ll: "linkWords latinCfg exRoot latinDoc [''Paris''] = latinDoc"
    by code_simp
  have ld: "linkWords DEFAULT_SETTINGS exRoot latinDoc [''Paris'']
       = ''# T'' @ [CHR 0xE2] @ ''ches\<newline>[[Paris]]''"
    by code_simp
  have 1: "linkSections exCfg exRoot [''Paris''] False (splitSections exDoc) ! Suc 1
          = splitSections exDoc ! Suc 1"
    using heading_exclusion [of exCfg exRoot exDoc "[''Paris'']"] h by blast
  have 2: "linkSections latinCfg exRoot [''Paris''] False (splitSections latinDoc) ! Suc 1
          = splitSections latinDoc ! Suc 1"
    using heading_exclusion [of latinCfg exRoot latinDoc "[''Paris'']"] hl by blast
  show ?thesis
    using s h l sl pl ll ld 1 2 by blast
qed


section \<open>Whitelist and blacklist\<close>

lemma linkSections_cong_words:
  assumes "\<And>chunk. foldl (linkWord cfg rt) chunk ws = foldl (linkWord cfg rt) chunk ws'"
  shows "linkSections cfg rt ws ex secs = linkSections cfg rt ws' ex secs"
  by (induction secs arbitrary: ex) (auto simp: assms)

lemma foldl_linkWord_filter:
  "foldl (linkWord cfg rt) chunk ws
     = foldl (linkWord cfg rt) chunk
         (filter (linkable (parseList (blacklistedStrings cfg)) (parseList (whitelistedStrings cfg))) ws)"
  by (induction ws arbitrary: chunk) (auto simp: linkWord_def)

lemma setAdd_subset: "set (foldl setAdd acc xs) = set acc \<union> set xs"
  by (induction xs arbitrary: acc) (auto simp: setAdd_def)

text \<open>
  C5. The pass of a term whose lower-case form is in the blacklist changes nothing, also
  when the term is in the whitelist; with a non-empty whitelist, the pass of a term
  whose lower-case form is not in it changes nothing. So linking with a word list is
  linking with the terms of the list that pass both tests, and with a non-empty
  whitelist \<^verbatim>\<open>getWordsToLink\<close> returns only terms whose lower-case form is in it.
\<close>

theorem filter_precedence:
  "(toLowerCase word \<in> set (parseList (blacklistedStrings cfg))
      \<longrightarrow> linkWord cfg rt chunk word = chunk)
   \<and> (parseList (whitelistedStrings cfg) \<noteq> []
        \<and> toLowerCase word \<notin> set (parseList (whitelistedStrings cfg))
      \<longrightarrow> linkWord cfg rt chunk word = chunk)
   \<and> linkWords cfg rt content words
       = linkWords cfg rt content
           (filter (\<lambda>w. toLowerCase w \<notin> set (parseList (blacklistedStrings cfg))
                        \<and> (parseList (whitelistedStrings cfg) = []
                             \<or> toLowerCase w \<in> set (parseList (whitelistedStrings cfg))))
                   words)
   \<and> (getWordsToLink cfg sto rt = Some vocabulary \<and> parseList (whitelistedStrings cfg) \<noteq> []
      \<longrightarrow> (\<forall>w \<in> set vocabulary. toLowerCase w \<in> set (parseList (whitelistedStrings cfg))))"
proof (intro conjI impI)
  show "linkWords cfg rt content words
       = linkWords cfg rt content
           (filter (\<lambda>w. toLowerCase w \<notin> set (parseList (blacklistedStrings cfg))
                        \<and> (parseList (whitelistedStrings cfg) = []
                             \<or> toLowerCase w \<in> set (parseList (whitelistedStrings cfg))))
                   words)"
  proof -
    have "(\<lambda>w. toLowerCase w \<notin> set (parseList (blacklistedStrings cfg))
                        \<and> (parseList (whitelistedStrings cfg) = []
                             \<or> toLowerCase w \<in> set (parseList (whitelistedStrings cfg))))
          = linkable (parseList (blacklistedStrings cfg)) (parseList (whitelistedStrings cfg))"
      by (auto simp: linkable_def fun_eq_iff)
    then show ?thesis
      unfolding linkWords_def
      using linkSections_cong_words [OF foldl_linkWord_filter, of cfg rt words]
      by simp
  qed
next
  assume "getWordsToLink cfg sto rt = Some vocabulary \<and> parseList (whitelistedStrings cfg) \<noteq> []"
  then show "\<forall>w \<in> set vocabulary. toLowerCase w \<in> set (parseList (whitelistedStrings cfg))"
    by (auto simp: getWordsToLink_def Let_def split: option.splits if_splits)
qed (simp_all add: linkWord_def linkable_def)


text \<open>
  With the whitelist \<^verbatim>\<open>Alpha\<close>, of the two vocabulary terms only \<^verbatim>\<open>Alpha\<close> is
  linked; with \<^verbatim>\<open>alpha\<close> in the blacklist as well, it is not linked either. The
  lower-case form of 0xC9 is 0xE9: the blacklist entry 0xE9, \<^verbatim>\<open>lan\<close> stops the term
  0xC9, \<^verbatim>\<open>lan\<close>, and the whitelist entry 0xC9, \<^verbatim>\<open>COLE\<close> admits the term 0xE9,
  \<^verbatim>\<open>cole\<close>.
\<close>

theorem filter_precedence_witness:
  "linkWords wlCfg exRoot ''Alpha and Beta'' [''Alpha'', ''Beta''] = ''[[Alpha]] and Beta''
   \<and> linkWord wlCfg exRoot ''Alpha and Beta'' ''Beta'' = ''Alpha and Beta''
   \<and> toLowerCase ''Alpha'' \<in> set (parseList (whitelistedStrings bothCfg))
   \<and> linkWord bothCfg exRoot ''Alpha and Beta'' ''Alpha'' = ''Alpha and Beta''
   \<and> getWordsToLink (DEFAULT_SETTINGS\<lparr>whitelistedStrings := ''paris''\<rparr>) exTexts exRoot
       = Some [''Paris'']
   \<and> linkWord DEFAULT_SETTINGS exRoot (''x'' @ [CHR 0xC9] @ ''lan y'') ([CHR 0xC9] @ ''lan'')
       = ''x[['' @ [CHR 0xC9] @ ''lan]] y''
   \<and> linkWord latinBlCfg exRoot (''x'' @ [CHR 0xC9] @ ''lan y'') ([CHR 0xC9] @ ''lan'')
       = ''x'' @ [CHR 0xC9] @ ''lan y''
   \<and> linkWords latinWlCfg exRoot (''x'' @ [CHR 0xE9] @ ''cole Beta'') [[CHR 0xE9] @ ''cole'', ''Beta'']
       = ''x[['' @ [CHR 0xE9] @ ''cole]] Beta''
   \<and> linkWord latinWlCfg exRoot (''x'' @ [CHR 0xE9] @ ''cole Beta'') ''Beta''
       = ''x'' @ [CHR 0xE9] @ ''cole Beta''"
proof -
  have e: "linkWords wlCfg exRoot ''Alpha and Beta'' [''Alpha'', ''Beta''] = ''[[Alpha]] and Beta''
           \<and> toLowerCase ''Alpha'' \<in> set (parseList (whitelistedStrings bothCfg))"
    by code_simp
  have h1: "parseList (whitelistedStrings wlCfg) \<noteq> []
            \<and> toLowerCase ''Beta'' \<notin> set (parseList (whitelistedStrings wlCfg))"
    by code_simp
  have h2: "toLowerCase ''Alpha'' \<in> set (parseList (blacklistedStrings bothCfg))"
    by code_simp
  have h3: "toLowerCase ([CHR 0xC9] @ ''lan'') \<in> set (parseList (blacklistedStrings latinBlCfg))"
    by code_simp
  have h4: "parseList (whitelistedStrings latinWlCfg) \<noteq> []
            \<and> toLowerCase ''Beta'' \<notin> set (parseList (whitelistedStrings latinWlCfg))"
    by code_simp
  have g: "getWordsToLink (DEFAULT_SETTINGS\<lparr>whitelistedStrings := ''paris''\<rparr>) exTexts exRoot
             = Some [''Paris'']"
    by code_simp
  have d: "linkWord DEFAULT_SETTINGS exRoot (''x'' @ [CHR 0xC9] @ ''lan y'') ([CHR 0xC9] @ ''lan'')
             = ''x[['' @ [CHR 0xC9] @ ''lan]] y''"
    by code_simp
  have w: "linkWords latinWlCfg exRoot (''x'' @ [CHR 0xE9] @ ''cole Beta'')
             [[CHR 0xE9] @ ''cole'', ''Beta'']
           = ''x[['' @ [CHR 0xE9] @ ''cole]] Beta''"
    by code_simp
  have 1: "linkWord wlCfg exRoot ''Alpha and Beta'' ''Beta'' = ''Alpha and Beta''"
    using filter_precedence [of "''Beta''" wlCfg exRoot "''Alpha and Beta''"] h1 by blast
  have 2: "linkWord bothCfg exRoot ''Alpha and Beta'' ''Alpha'' = ''Alpha and Beta''"
    using filter_precedence [of "''Alpha''" bothCfg exRoot "''Alpha and Beta''"] h2 by blast
  have 3: "linkWord latinBlCfg exRoot (''x'' @ [CHR 0xC9] @ ''lan y'') ([CHR 0xC9] @ ''lan'')
             = ''x'' @ [CHR 0xC9] @ ''lan y''"
    using filter_precedence
            [of "[CHR 0xC9] @ ''lan''" latinBlCfg exRoot "''x'' @ [CHR 0xC9] @ ''lan y''"] h3
    by blast
  have 4: "linkWord latinWlCfg exRoot (''x'' @ [CHR 0xE9] @ ''cole Beta'') ''Beta''
             = ''x'' @ [CHR 0xE9] @ ''cole Beta''"
    using filter_precedence
            [of "''Beta''" latinWlCfg exRoot "''x'' @ [CHR 0xE9] @ ''cole Beta''"] h4
    by blast
  show ?thesis
    using e g d w 1 2 3 4 by blast
qed


section \<open>Running the linker twice\<close>

text \<open>
  The notions of the proof: a text that holds neither \<^verbatim>\<open>[[\<close> nor \<^verbatim>\<open>]]\<close>; the
  replacement when \<^verbatim>\<open>existingFilesOnly\<close> is off; a chunk, from a position on, in
  which the pattern of a word matches nowhere; and what the scan of the output of a pass
  knows about the scan of its input at the same place.
\<close>

definition tame :: "string \<Rightarrow> bool" where
  "tame s = (\<not> sublist ''[['' s \<and> \<not> sublist '']]'' s)"

definition wrap :: "string \<Rightarrow> string" where
  "wrap m = ''[['' @ m @ '']]''"

fun noMatchFrom :: "string \<Rightarrow> string \<Rightarrow> string \<Rightarrow> bool" where
  "noMatchFrom word left [] = (\<not> linkMatchAt word left [])"
| "noMatchFrom word left (c # cs) =
     (\<not> linkMatchAt word left (c # cs) \<and> noMatchFrom word (c # left) cs)"

definition ctxOK :: "string \<Rightarrow> string \<Rightarrow> string \<Rightarrow> bool" where
  "ctxOK left left' rest =
     ((prefix ''[['' left \<longrightarrow> prefix ''[['' left')
      \<and> (prefix ''['' left \<and> prefix ''['' rest \<longrightarrow> prefix ''['' left')
      \<and> (wordBoundary left' rest \<longrightarrow> wordBoundary left rest))"

declare replaceFrom.simps [simp del]

lemma canonicalize_code:
  "(of_char (canonicalize c) :: nat)
     = (if isLowerAscii c \<or> isLowerLatin1 c then of_char c - 32 else of_char c)"
proof -
  have "(of_char c :: nat) - 32 < 256"
    using nat_of_char_less_256 [of c] by linarith
  then show ?thesis
    by (simp add: canonicalize_def)
qed

lemma canonicalize_open [simp]: "(canonicalize c = CHR ''['') = (c = CHR ''['')"
proof -
  have "(canonicalize c = CHR ''['') = ((of_char (canonicalize c) :: nat) = of_char CHR ''['')"
    by (simp only: of_char_eq_iff)
  also have "\<dots> = ((of_char c :: nat) = of_char CHR ''['')"
    by (auto simp: canonicalize_code isLowerAscii_def isLowerLatin1_def)
  also have "\<dots> = (c = CHR ''['')"
    by (simp only: of_char_eq_iff)
  finally show ?thesis .
qed

lemma canonicalize_close [simp]: "(canonicalize c = CHR '']'') = (c = CHR '']'')"
proof -
  have "(canonicalize c = CHR '']'') = ((of_char (canonicalize c) :: nat) = of_char CHR '']'')"
    by (simp only: of_char_eq_iff)
  also have "\<dots> = ((of_char c :: nat) = of_char CHR '']'')"
    by (auto simp: canonicalize_code isLowerAscii_def isLowerLatin1_def)
  also have "\<dots> = (c = CHR '']'')"
    by (simp only: of_char_eq_iff)
  finally show ?thesis .
qed

lemma canonicalize_brackets [simp]:
  "canonicalize CHR ''['' = CHR ''[''" "canonicalize CHR '']'' = CHR '']''"
  using canonicalize_open [of "CHR ''[''"] canonicalize_close [of "CHR '']''"] by simp_all

lemma ciEq_len: "ciEq s t \<Longrightarrow> length s = length t"
  unfolding ciEq_def by (rule map_eq_imp_length_eq)

text \<open>Case variants have their brackets at the same places.\<close>

lemma ciEq_double_open: "ciEq s t \<Longrightarrow> sublist ''[['' s \<Longrightarrow> sublist ''[['' t"
proof -
  assume e: "ciEq s t" and "sublist ''[['' s"
  then obtain ps ss where s: "s = ps @ ''[['' @ ss"
    by (auto simp: sublist_def)
  have "map canonicalize t = map canonicalize ps @ ''[['' @ map canonicalize ss"
    using e by (simp add: ciEq_def s)
  then obtain t1 t2 where t: "t = t1 @ t2" and "map canonicalize t2 = ''[['' @ map canonicalize ss"
    by (auto simp: map_eq_append_conv)
  then obtain t3 where "t2 = ''[['' @ t3"
    by (auto simp: map_eq_Cons_conv)
  with t show ?thesis
    by (auto simp: sublist_def)
qed

lemma ciEq_double_close: "ciEq s t \<Longrightarrow> sublist '']]'' s \<Longrightarrow> sublist '']]'' t"
proof -
  assume e: "ciEq s t" and "sublist '']]'' s"
  then obtain ps ss where s: "s = ps @ '']]'' @ ss"
    by (auto simp: sublist_def)
  have "map canonicalize t = map canonicalize ps @ '']]'' @ map canonicalize ss"
    using e by (simp add: ciEq_def s)
  then obtain t1 t2 where t: "t = t1 @ t2" and "map canonicalize t2 = '']]'' @ map canonicalize ss"
    by (auto simp: map_eq_append_conv)
  then obtain t3 where "t2 = '']]'' @ t3"
    by (auto simp: map_eq_Cons_conv)
  with t show ?thesis
    by (auto simp: sublist_def)
qed

lemma ciEq_tame: "ciEq s t \<Longrightarrow> tame t \<Longrightarrow> tame s"
  using ciEq_double_open ciEq_double_close by (auto simp: tame_def)

lemma isLineTerminator_not_word: "isLineTerminator c \<Longrightarrow> \<not> isWordChar c"
  by (auto simp: isLineTerminator_def isWordChar_def isUpperAscii_def isLowerAscii_def isDigit_def)

lemma bracket_not_word [simp]: "\<not> isWordChar CHR ''[''" "\<not> isWordChar CHR '']''"
  by (simp_all add: isWordChar_def isUpperAscii_def isLowerAscii_def isDigit_def)

lemma replaceFrom_Nil: "word \<noteq> [] \<Longrightarrow> replaceFrom f word left [] = []"
  by (subst replaceFrom.simps) (simp add: linkMatchAt_def)

lemma replaceFrom_match:
  "word \<noteq> [] \<Longrightarrow> linkMatchAt word left rest \<Longrightarrow>
   replaceFrom f word left rest
     = f (take (length word) rest)
       @ replaceFrom f word (rev (take (length word) rest) @ left) (drop (length word) rest)"
  by (subst replaceFrom.simps) simp

lemma replaceFrom_skip:
  "\<not> linkMatchAt word left (c # cs) \<Longrightarrow>
   replaceFrom f word left (c # cs) = c # replaceFrom f word (c # left) cs"
  by (subst replaceFrom.simps) simp

lemma wordBefore_append: "xs \<noteq> [] \<Longrightarrow> wordBefore (xs @ ys) = wordBefore xs"
  by (cases xs) (simp_all add: wordBefore_def)

text \<open>
  A beginning of the output that holds no \<^verbatim>\<open>[[\<close> and ends at a word boundary is a
  beginning of the input, and the scan of the input goes on behind it.
\<close>

lemma replaceFrom_plain_prefix:
  assumes "word \<noteq> []"
  shows "\<not> sublist ''[['' (take k (replaceFrom wrap word left rest)) \<Longrightarrow>
         k \<le> length (replaceFrom wrap word left rest) \<Longrightarrow>
         0 < k \<longrightarrow> wordBoundary (rev (take k (replaceFrom wrap word left rest)))
                      (drop k (replaceFrom wrap word left rest)) \<Longrightarrow>
         k \<le> length rest
         \<and> take k (replaceFrom wrap word left rest) = take k rest
         \<and> drop k (replaceFrom wrap word left rest)
             = replaceFrom wrap word (rev (take k rest) @ left) (drop k rest)"
proof (induction k arbitrary: left rest)
  case 0
  then show ?case by simp
next
  case (Suc k)
  show ?case
  proof (cases "linkMatchAt word left rest")
    case True
    let ?tail = "take (length word) rest @ '']]''
                   @ replaceFrom wrap word (rev (take (length word) rest) @ left)
                       (drop (length word) rest)"
    have out: "replaceFrom wrap word left rest = CHR ''['' # CHR ''['' # ?tail"
      using True assms by (simp add: replaceFrom_match wrap_def)
    show ?thesis
    proof (cases k)
      case 0
      with Suc.prems(3) show ?thesis
        by (simp add: out wordBoundary_def wordBefore_def wordAfter_def)
    next
      case (Suc j)
      then have "take (Suc k) (replaceFrom wrap word left rest) = ''[['' @ take j ?tail"
        by (simp add: out)
      then have "sublist ''[['' (take (Suc k) (replaceFrom wrap word left rest))"
        by (metis prefix_imp_sublist prefixI)
      with Suc.prems(1) show ?thesis by simp
    qed
  next
    case False
    show ?thesis
    proof (cases rest)
      case Nil
      with Suc.prems(2) assms show ?thesis
        by (simp add: replaceFrom_Nil)
    next
      case (Cons c cs)
      let ?o = "replaceFrom wrap word (c # left) cs"
      have out: "replaceFrom wrap word left (c # cs) = c # ?o"
        using False Cons by (simp add: replaceFrom_skip)
      have 1: "\<not> sublist ''[['' (take k ?o)"
        using Suc.prems(1) by (simp add: out Cons sublist_Cons_right)
      have 2: "k \<le> length ?o"
        using Suc.prems(2) by (simp add: out Cons)
      have 3: "0 < k \<longrightarrow> wordBoundary (rev (take k ?o)) (drop k ?o)"
      proof
        assume "0 < k"
        then have "take k ?o \<noteq> []" using 2 by (cases ?o) auto
        then have "wordBefore (rev (take k ?o) @ [c]) = wordBefore (rev (take k ?o))"
          by (simp add: wordBefore_append)
        then show "wordBoundary (rev (take k ?o)) (drop k ?o)"
          using Suc.prems(3) by (simp add: out Cons wordBoundary_def)
      qed
      from Suc.IH [OF 1 2 3] show ?thesis
        by (simp add: out Cons)
    qed
  qed
qed

lemma linkMatchAt_tame:
  assumes "linkMatchAt word left rest" and "tame word"
  shows "tame (take (length word) rest)"
  using assms by (auto simp: linkMatchAt_def intro: ciEq_tame)

lemma linkMatchAt_after_open: "\<not> linkMatchAt word (CHR ''['' # l) (CHR ''['' # cs)"
  by (simp add: linkMatchAt_def wordBoundary_def wordBefore_def wordAfter_def)

lemma linkMatchAt_open_open:
  assumes "word \<noteq> []" and "tame word"
  shows "\<not> linkMatchAt word left (CHR ''['' # CHR ''['' # cs)"
proof
  assume m: "linkMatchAt word left (CHR ''['' # CHR ''['' # cs)"
  then have t: "tame (take (length word) (CHR ''['' # CHR ''['' # cs))"
    using assms(2) by (rule linkMatchAt_tame)
  obtain n where n: "length word = Suc n"
    using assms(1) by (cases word) auto
  show False
  proof (cases n)
    case 0
    with m n show ?thesis
      by (simp add: linkMatchAt_def wordBoundary_def wordBefore_def wordAfter_def)
  next
    case (Suc j)
    then have "take (length word) (CHR ''['' # CHR ''['' # cs) = ''[['' @ take j cs"
      using n by simp
    then have "sublist ''[['' (take (length word) (CHR ''['' # CHR ''['' # cs))"
      by (metis prefix_imp_sublist prefixI)
    with t show ?thesis by (simp add: tame_def)
  qed
qed

lemma linkMatchAt_after_close: "\<not> linkMatchAt word (CHR '']'' # l) (CHR '']'' # cs)"
  by (simp add: linkMatchAt_def wordBoundary_def wordBefore_def wordAfter_def)

lemma linkMatchAt_close_close:
  assumes "word \<noteq> []" and "tame word"
  shows "\<not> linkMatchAt word left (CHR '']'' # CHR '']'' # cs)"
proof
  assume m: "linkMatchAt word left (CHR '']'' # CHR '']'' # cs)"
  then have t: "tame (take (length word) (CHR '']'' # CHR '']'' # cs))"
    using assms(2) by (rule linkMatchAt_tame)
  obtain n where n: "length word = Suc n"
    using assms(1) by (cases word) auto
  show False
  proof (cases n)
    case 0
    with m n show ?thesis
      by (simp add: linkMatchAt_def wordBoundary_def wordBefore_def wordAfter_def)
  next
    case (Suc j)
    then have "take (length word) (CHR '']'' # CHR '']'' # cs) = '']]'' @ take j cs"
      using n by simp
    then have "sublist '']]'' (take (length word) (CHR '']'' # CHR '']'' # cs))"
      by (metis prefix_imp_sublist prefixI)
    with t show ?thesis by (simp add: tame_def)
  qed
qed

lemma right_boundary:
  assumes "word \<noteq> []"
    and "wordBefore l = wordBefore left"
    and "wordBoundary l (replaceFrom wrap word left rest)"
  shows "wordBoundary left rest"
proof (cases "linkMatchAt word left rest")
  case True
  then show ?thesis by (simp add: linkMatchAt_def)
next
  case False
  then have "wordAfter (replaceFrom wrap word left rest) = wordAfter rest"
    using assms(1) by (cases rest) (simp_all add: replaceFrom_Nil replaceFrom_skip wordAfter_def)
  with assms show ?thesis
    by (simp add: wordBoundary_def)
qed

lemma right_lookahead:
  assumes "word \<noteq> []" and "tame word"
    and "\<not> prefix '']]'' (replaceFrom wrap word left rest)"
  shows "\<not> prefix '']]'' rest"
proof
  assume "prefix '']]'' rest"
  then obtain cs where rest: "rest = CHR '']'' # CHR '']'' # cs"
    by (auto simp: prefix_def)
  have "replaceFrom wrap word left rest
          = CHR '']'' # CHR '']'' # replaceFrom wrap word (CHR '']'' # CHR '']'' # left) cs"
    using assms(1,2)
    by (simp add: rest replaceFrom_skip linkMatchAt_close_close linkMatchAt_after_close)
  with assms(3) show False by simp
qed

lemma matched_text_in_input:
  assumes "word \<noteq> []" "tame word" "word' \<noteq> []"
    and "linkMatchAt word left' (replaceFrom wrap word' left rest)"
  shows "length word \<le> length rest
         \<and> take (length word) (replaceFrom wrap word' left rest) = take (length word) rest
         \<and> drop (length word) (replaceFrom wrap word' left rest)
             = replaceFrom wrap word' (rev (take (length word) rest) @ left)
                 (drop (length word) rest)"
proof (rule replaceFrom_plain_prefix)
  let ?out = "replaceFrom wrap word' left rest"
  show "word' \<noteq> []" by fact
  show "\<not> sublist ''[['' (take (length word) ?out)"
    using linkMatchAt_tame [OF assms(4,2)] by (simp add: tame_def)
  show len: "length word \<le> length ?out"
    using assms(4) by (simp add: linkMatchAt_def)
  show "0 < length word
          \<longrightarrow> wordBoundary (rev (take (length word) ?out)) (drop (length word) ?out)"
  proof
    assume "0 < length word"
    then have "rev (take (length word) ?out) \<noteq> []"
      using len by (cases ?out) auto
    then have "wordBefore (rev (take (length word) ?out) @ left')
                 = wordBefore (rev (take (length word) ?out))"
      by (rule wordBefore_append)
    moreover have "wordBoundary (rev (take (length word) ?out) @ left') (drop (length word) ?out)"
      using assms(4) by (simp add: linkMatchAt_def)
    ultimately show "wordBoundary (rev (take (length word) ?out)) (drop (length word) ?out)"
      by (simp add: wordBoundary_def)
  qed
qed

lemma wordBefore_rev_take:
  "0 < n \<Longrightarrow> n \<le> length rest \<Longrightarrow>
   wordBefore (rev (take n rest) @ l) = wordBefore (rev (take n rest) @ l')"
proof -
  assume "0 < n" "n \<le> length rest"
  then have "take n rest \<noteq> []" by auto
  then obtain x xs where "rev (take n rest) = x # xs"
    by (cases "rev (take n rest)") auto
  then show ?thesis by (simp add: wordBefore_def)
qed

lemma wordAfter_take:
  "0 < n \<Longrightarrow> take n a = take n b \<Longrightarrow> wordAfter a = wordAfter b"
  by (cases a; cases b; cases n) (auto simp: wordAfter_def)

text \<open>A match in the output, at a place where the scan of the input stood, is a match
  in the input.\<close>

lemma match_in_output:
  assumes w: "word \<noteq> []" "tame word"
    and w': "word' \<noteq> []" "tame word'"
    and ctx: "ctxOK left left' rest"
    and m: "linkMatchAt word left' (replaceFrom wrap word' left rest)"
  shows "linkMatchAt word left rest"
proof -
  let ?n = "length word"
  let ?out = "replaceFrom wrap word' left rest"
  have n: "0 < ?n" using w(1) by simp
  have al: "?n \<le> length rest" and tk: "take ?n ?out = take ?n rest"
    and dr: "drop ?n ?out = replaceFrom wrap word' (rev (take ?n rest) @ left) (drop ?n rest)"
    using matched_text_in_input [OF w w'(1) m] by simp_all
  have 1: "\<not> prefix ''[['' left"
    using m ctx by (auto simp: linkMatchAt_def ctxOK_def)
  have "wordBoundary left' ?out" using m by (simp add: linkMatchAt_def)
  then have "wordBoundary left' rest"
    using wordAfter_take [OF n tk] by (simp add: wordBoundary_def)
  then have 2: "wordBoundary left rest"
    using ctx by (simp add: ctxOK_def)
  have 4: "ciEq (take ?n rest) word"
    using m tk by (simp add: linkMatchAt_def)
  have "wordBoundary (rev (take ?n rest) @ left') (drop ?n ?out)"
    using m tk by (simp add: linkMatchAt_def)
  then have 5: "wordBoundary (rev (take ?n rest) @ left) (drop ?n rest)"
    unfolding dr using wordBefore_rev_take [OF n al] right_boundary [OF w'(1)] by blast
  have "\<not> prefix '']]'' (drop ?n ?out)"
    using m by (simp add: linkMatchAt_def)
  then have 6: "\<not> prefix '']]'' (drop ?n rest)"
    unfolding dr by (rule right_lookahead [OF w'])
  show ?thesis
    using 1 2 al 4 5 6 by (simp add: linkMatchAt_def)
qed

lemma noMatchFrom_here: "noMatchFrom word left rest \<Longrightarrow> \<not> linkMatchAt word left rest"
  by (cases rest) simp_all

lemma noMatchFrom_append:
  "noMatchFrom word left (xs @ ys) \<Longrightarrow> noMatchFrom word (rev xs @ left) ys"
  by (induction xs arbitrary: left) auto

lemma noMatchFrom_appendI:
  assumes "\<And>x1 x2. xs = x1 @ x2 \<Longrightarrow> x2 \<noteq> [] \<Longrightarrow> \<not> linkMatchAt word (rev x1 @ left) (x2 @ ys)"
    and "noMatchFrom word (rev xs @ left) ys"
  shows "noMatchFrom word left (xs @ ys)"
  using assms
proof (induction xs arbitrary: left)
  case Nil
  then show ?case by simp
next
  case (Cons c xs)
  have "\<not> linkMatchAt word left ((c # xs) @ ys)"
    using Cons.prems(1) [of "[]" "c # xs"] by simp
  moreover have "noMatchFrom word (c # left) (xs @ ys)"
  proof (rule Cons.IH)
    fix x1 x2 assume "xs = x1 @ x2" "x2 \<noteq> []"
    then show "\<not> linkMatchAt word (rev x1 @ c # left) (x2 @ ys)"
      using Cons.prems(1) [of "c # x1" x2] by simp
  next
    show "noMatchFrom word (rev xs @ c # left) ys"
      using Cons.prems(2) by simp
  qed
  ultimately show ?case by simp
qed

lemma ctxOK_start: "ctxOK [] [] rest"
  by (simp add: ctxOK_def)

lemma ctxOK_copy: "ctxOK (c # left) (c # left') cs"
  if "ctxOK left left' (c # cs)"
  using that by (auto simp: ctxOK_def wordBoundary_def wordBefore_def)

text \<open>
  The text of a match neither ends in \<^verbatim>\<open>[\<close> before a \<^verbatim>\<open>[\<close> nor, together with
  what stands before it, in \<^verbatim>\<open>[[\<close>: the word boundaries at its two ends forbid it.
\<close>

lemma match_end_no_open:
  assumes "word \<noteq> []" and "tame word" and "linkMatchAt word left rest"
  shows "\<not> prefix ''[['' (rev (take (length word) rest) @ left)"
    and "\<not> (prefix ''['' (rev (take (length word) rest) @ left)
            \<and> prefix ''['' (drop (length word) rest))"
proof -
  let ?m = "take (length word) rest"
  have tm: "tame ?m"
    using assms(3,2) by (rule linkMatchAt_tame)
  have lm: "length ?m = length word"
    using assms(3) by (simp add: linkMatchAt_def)
  then have "?m \<noteq> []" using assms(1) by auto
  then obtain x xs where r: "rev ?m = x # xs"
    by (cases "rev ?m") auto
  have m: "?m = rev xs @ [x]"
    using r by (metis rev_eq_Cons_iff)
  have wb: "wordBoundary (rev ?m @ left) (drop (length word) rest)"
    using assms(3) by (simp add: linkMatchAt_def)
  show "\<not> (prefix ''['' (rev ?m @ left) \<and> prefix ''['' (drop (length word) rest))"
  proof
    assume a: "prefix ''['' (rev ?m @ left) \<and> prefix ''['' (drop (length word) rest)"
    then have "x = CHR ''[''" by (simp add: r)
    moreover obtain ds where "drop (length word) rest = CHR ''['' # ds"
      using a by (auto simp: prefix_def)
    ultimately show False
      using wb by (simp add: r wordBoundary_def wordBefore_def wordAfter_def)
  qed
  show "\<not> prefix ''[['' (rev ?m @ left)"
  proof
    assume a: "prefix ''[['' (rev ?m @ left)"
    then have x: "x = CHR ''[''" by (simp add: r)
    show False
    proof (cases xs)
      case Nil
      then have one: "?m = ''[''" using m x by simp
      then have "length word = 1" using lm by simp
      then obtain cs where rest: "rest = CHR ''['' # cs"
        using one by (cases rest) auto
      have "prefix ''['' left" using a r Nil x by simp
      then obtain ls where "left = CHR ''['' # ls"
        by (auto simp: prefix_def)
      then show False
        using assms(3) rest by (simp add: linkMatchAt_after_open)
    next
      case (Cons y ys)
      then have y: "y = CHR ''[''" using a r by auto
      have "?m = rev ys @ [y, x]" using m Cons by simp
      then have "?m = rev ys @ ''[['' @ []" unfolding x y by simp
      then have "sublist ''[['' ?m"
        unfolding sublist_def by blast
      with tm show False by (simp add: tame_def)
    qed
  qed
qed

lemma ctxOK_wrap:
  assumes "word \<noteq> []" and "tame word" and "linkMatchAt word left rest"
  shows "ctxOK (rev (take (length word) rest) @ left)
           (rev (wrap (take (length word) rest)) @ left')
           (drop (length word) rest)"
proof -
  have wb: "wordBoundary (rev (take (length word) rest) @ left) (drop (length word) rest)"
    using assms(3) by (simp add: linkMatchAt_def)
  show ?thesis
    unfolding ctxOK_def using match_end_no_open [OF assms] wb by blast
qed

text \<open>A match that starts after the first character of a wrapped match lies inside it.\<close>

lemma match_inside_wrapped:
  assumes w: "word \<noteq> []" "tame word"
    and tm: "tame (x1 @ x2)" and x1: "x1 \<noteq> []"
    and m: "linkMatchAt word (rev x1 @ ''[['' @ l') (x2 @ '']]'' @ out)"
  shows "length word < length x2 \<and> linkMatchAt word (rev x1 @ l) (x2 @ r2)"
proof -
  let ?n = "length word"
  have n: "0 < ?n" using w(1) by simp
  have pl: "tame (take ?n (x2 @ '']]'' @ out))"
    using m w(2) by (rule linkMatchAt_tame)
  have le: "?n \<le> length x2"
  proof (rule ccontr)
    assume "\<not> ?n \<le> length x2"
    then obtain k where k: "?n = length x2 + Suc k"
      by (metis add_Suc_right less_imp_Suc_add not_le)
    show False
    proof (cases k)
      case 0
      then have tk: "take ?n (x2 @ '']]'' @ out) = x2 @ '']''"
        and dr: "drop ?n (x2 @ '']]'' @ out) = CHR '']'' # out"
        using k by simp_all
      have "wordBoundary (rev (take ?n (x2 @ '']]'' @ out)) @ rev x1 @ ''[['' @ l')
              (drop ?n (x2 @ '']]'' @ out))"
        using m unfolding linkMatchAt_def by blast
      then show False
        unfolding tk dr by (simp add: wordBoundary_def wordBefore_def wordAfter_def)
    next
      case (Suc j)
      then have "take ?n (x2 @ '']]'' @ out) = x2 @ '']]'' @ take j out"
        using k by simp
      then have "sublist '']]'' (take ?n (x2 @ '']]'' @ out))"
        unfolding sublist_def by blast
      with pl show False by (simp add: tame_def)
    qed
  qed
  have ne: "?n \<noteq> length x2"
  proof
    assume "?n = length x2"
    then have "drop ?n (x2 @ '']]'' @ out) = '']]'' @ out" by simp
    with m show False by (simp add: linkMatchAt_def)
  qed
  from le ne have lt: "?n < length x2" by simp
  then obtain y ys where d: "drop ?n x2 = y # ys"
    by (cases "drop ?n x2") auto
  have "\<not> prefix '']]'' (y # ys @ '']]'' @ out)"
    using m lt d by (simp add: linkMatchAt_def)
  then have la: "\<not> prefix '']]'' (y # ys @ t)" for t
    by (cases ys) auto
  obtain z zs where r: "rev x1 = z # zs"
    using x1 by (cases "rev x1") auto
  have "\<not> prefix ''[['' (z # zs @ ''[['' @ l')"
    using m by (simp add: linkMatchAt_def r)
  then have lb: "\<not> prefix ''[['' (z # zs @ l)"
    by (cases zs) auto
  have tk: "take ?n (x2 @ t) = take ?n x2" for t
    using lt by simp
  have dr: "drop ?n (x2 @ t) = y # ys @ t" for t
    using lt d by simp
  obtain u us where u: "rev (take ?n x2) = u # us"
    using n lt by (cases "rev (take ?n x2)") auto
  obtain v vs where v: "x2 = v # vs"
    using lt by (cases x2) auto
  have "linkMatchAt word (rev x1 @ l) (x2 @ r2)"
    using m lb la lt
    unfolding linkMatchAt_def tk dr r u
    by (simp add: wordBoundary_def wordBefore_def wordAfter_def v)
  with lt show ?thesis by simp
qed

lemma noMatch_after_replace:
  assumes w: "word \<noteq> []" "tame word"
    and w': "word' \<noteq> []" "tame word'"
  shows "word = word' \<or> noMatchFrom word left rest \<Longrightarrow> ctxOK left left' rest \<Longrightarrow>
         noMatchFrom word left' (replaceFrom wrap word' left rest)"
proof (induction "length rest" arbitrary: left left' rest rule: less_induct)
  case less
  note hyp = less.prems(1) and ctx = less.prems(2)
  show ?case
  proof (cases "linkMatchAt word' left rest")
    case True
    let ?n = "length word'"
    let ?m = "take ?n rest"
    let ?r2 = "drop ?n rest"
    let ?o1 = "replaceFrom wrap word' (rev ?m @ left) ?r2"
    have len: "?n \<le> length rest" using True by (simp add: linkMatchAt_def)
    have lm: "length ?m = ?n" using len by simp
    have rest: "rest = ?m @ ?r2" by simp
    have tm: "tame ?m" using True w'(2) by (rule linkMatchAt_tame)
    have out: "replaceFrom wrap word' left rest = ''[['' @ ?m @ '']]'' @ ?o1"
      using True w'(1) by (simp add: replaceFrom_match wrap_def)
    have shorter: "length ?r2 < length rest"
      using len w'(1) by (cases word') auto
    have hyp2: "word = word' \<or> noMatchFrom word (rev ?m @ left) ?r2"
      using hyp noMatchFrom_append [of word left ?m ?r2] by auto
    have tail: "noMatchFrom word (rev (wrap ?m) @ left') ?o1"
      using less.hyps [OF shorter hyp2] ctxOK_wrap [OF w' True] by simp
    have close: "noMatchFrom word (rev ?m @ ''[['' @ left') ('']]'' @ ?o1)"
      using tail w by (simp add: linkMatchAt_close_close linkMatchAt_after_close wrap_def)
    have inner: "noMatchFrom word (''[['' @ left') (?m @ '']]'' @ ?o1)"
    proof (rule noMatchFrom_appendI)
      show "noMatchFrom word (rev ?m @ ''[['' @ left') ('']]'' @ ?o1)" by (rule close)
    next
      fix x1 x2
      assume split: "?m = x1 @ x2" and x2: "x2 \<noteq> []"
      show "\<not> linkMatchAt word (rev x1 @ ''[['' @ left') (x2 @ '']]'' @ ?o1)"
      proof (cases "x1 = []")
        case True
        then show ?thesis by (simp add: linkMatchAt_def)
      next
        case False
        show ?thesis
        proof
          assume m: "linkMatchAt word (rev x1 @ ''[['' @ left') (x2 @ '']]'' @ ?o1)"
          have tm12: "tame (x1 @ x2)" using tm split by simp
          have in': "length word < length x2 \<and> linkMatchAt word (rev x1 @ left) (x2 @ ?r2)"
            by (rule match_inside_wrapped [OF w tm12 False m])
          have "length x2 \<le> ?n"
            using lm split by (metis length_append le_add2)
          with in' have "word \<noteq> word'" by auto
          with hyp have "noMatchFrom word left rest" by simp
          then have "noMatchFrom word left (x1 @ x2 @ ?r2)"
            using rest split by (metis append_assoc)
          then have "\<not> linkMatchAt word (rev x1 @ left) (x2 @ ?r2)"
            using noMatchFrom_append noMatchFrom_here by blast
          with in' show False by simp
        qed
      qed
    qed
    have "noMatchFrom word left' (''[['' @ ?m @ '']]'' @ ?o1)"
      using inner w by (simp add: linkMatchAt_open_open linkMatchAt_after_open)
    then show ?thesis by (simp only: out)
  next
    case False
    show ?thesis
    proof (cases rest)
      case Nil
      then show ?thesis
        using w'(1) w(1) by (simp add: replaceFrom_Nil linkMatchAt_def)
    next
      case (Cons c cs)
      have out: "replaceFrom wrap word' left rest = c # replaceFrom wrap word' (c # left) cs"
        using False Cons by (simp add: replaceFrom_skip)
      have here: "\<not> linkMatchAt word left' (replaceFrom wrap word' left rest)"
      proof
        assume "linkMatchAt word left' (replaceFrom wrap word' left rest)"
        then have "linkMatchAt word left rest"
          by (rule match_in_output [OF w w' ctx])
        with hyp False show False
          using noMatchFrom_here by blast
      qed
      have "noMatchFrom word (c # left') (replaceFrom wrap word' (c # left) cs)"
      proof (rule less.hyps)
        show "length cs < length rest" using Cons by simp
        show "word = word' \<or> noMatchFrom word (c # left) cs"
          using hyp Cons by auto
        show "ctxOK (c # left) (c # left') cs"
          using ctx Cons by (simp add: ctxOK_copy)
      qed
      with here show ?thesis by (simp add: out)
    qed
  qed
qed

lemma wrapped_noMatch:
  assumes w: "word \<noteq> []" "tame word" and m: "ciEq m word"
  shows "noMatchFrom word left (''[['' @ m @ '']]'')"
proof -
  have tm: "tame m" using m w(2) by (rule ciEq_tame)
  have len: "length m = length word" using m by (rule ciEq_len)
  have close: "noMatchFrom word (rev m @ ''[['' @ left) ('']]'' @ [])"
    using w by (simp add: linkMatchAt_close_close linkMatchAt_after_close)
      (simp add: linkMatchAt_def)
  have "noMatchFrom word (''[['' @ left) (m @ '']]'' @ [])"
  proof (rule noMatchFrom_appendI)
    show "noMatchFrom word (rev m @ ''[['' @ left) ('']]'' @ [])" by (rule close)
  next
    fix x1 x2
    assume split: "m = x1 @ x2" and "x2 \<noteq> []"
    show "\<not> linkMatchAt word (rev x1 @ ''[['' @ left) (x2 @ '']]'' @ [])"
    proof (cases "x1 = []")
      case True
      then show ?thesis by (simp add: linkMatchAt_def)
    next
      case False
      show ?thesis
      proof
        assume "linkMatchAt word (rev x1 @ ''[['' @ left) (x2 @ '']]'' @ [])"
        then have "length word < length x2"
          using match_inside_wrapped [OF w _ False, of x2 left "[]"] tm split
          by blast
        then show False using len split by simp
      qed
    qed
  qed
  then show ?thesis
    using w by (simp add: linkMatchAt_open_open linkMatchAt_after_open)
qed

lemma replaceFrom_noMatch: "noMatchFrom word left rest \<Longrightarrow> replaceFrom f word left rest = rest"
proof (induction rest arbitrary: left)
  case Nil
  then show ?case by (subst replaceFrom.simps) simp
next
  case (Cons c cs)
  then show ?case by (simp add: replaceFrom_skip)
qed

lemma wrapMatch_off: "wrapMatch False rt = wrap"
  by (simp add: wrapMatch_def wrap_def fun_eq_iff)

lemma linkWord_off:
  "\<not> existingFilesOnly cfg \<Longrightarrow>
   linkWord cfg rt chunk word
     = (if linkable (parseList (blacklistedStrings cfg)) (parseList (whitelistedStrings cfg)) word
        then replaceFrom wrap word [] chunk else chunk)"
  by (simp add: linkWord_def replaceLinks_def wrapMatch_off)

lemma chunk_noMatch:
  assumes off: "\<not> existingFilesOnly cfg"
  shows "\<forall>w \<in> set ws. w \<noteq> [] \<and> tame w \<Longrightarrow>
         \<forall>w \<in> set ws.
           linkable (parseList (blacklistedStrings cfg)) (parseList (whitelistedStrings cfg)) w
             \<longrightarrow> noMatchFrom w [] (foldl (linkWord cfg rt) chunk ws)"
proof (induction ws rule: rev_induct)
  case Nil
  then show ?case by simp
next
  case (snoc v ws)
  let ?ok = "linkable (parseList (blacklistedStrings cfg)) (parseList (whitelistedStrings cfg))"
  let ?t = "foldl (linkWord cfg rt) chunk ws"
  have v: "v \<noteq> []" "tame v" using snoc.prems by simp_all
  have ih: "\<forall>w \<in> set ws. ?ok w \<longrightarrow> noMatchFrom w [] ?t"
    using snoc by simp
  have last: "foldl (linkWord cfg rt) chunk (ws @ [v])
                = (if ?ok v then replaceFrom wrap v [] ?t else ?t)"
    using linkWord_off [OF off, of rt ?t v] by simp
  show ?case
  proof (cases "?ok v")
    case False
    then show ?thesis
      using ih unfolding last by simp
  next
    case True
    have "noMatchFrom w [] (replaceFrom wrap v [] ?t)" if "w \<in> set (ws @ [v])" and "?ok w" for w
    proof -
      have w: "w \<noteq> []" "tame w" using that(1) snoc.prems by auto
      have "w = v \<or> noMatchFrom w [] ?t"
        using that ih by auto
      then show ?thesis
        by (rule noMatch_after_replace [OF w v _ ctxOK_start])
    qed
    then show ?thesis
      using True unfolding last by simp
  qed
qed

lemma chunk_fixed:
  "\<forall>w \<in> set ws.
     linkable (parseList (blacklistedStrings cfg)) (parseList (whitelistedStrings cfg)) w
       \<longrightarrow> noMatchFrom w [] t \<Longrightarrow>
   foldl (linkWord cfg rt) t ws = t"
  by (induction ws) (auto simp: linkWord_def replaceLinks_def replaceFrom_noMatch)

lemma chunk_idempotent:
  assumes "\<not> existingFilesOnly cfg" and "\<forall>w \<in> set ws. w \<noteq> [] \<and> tame w"
  shows "foldl (linkWord cfg rt) (foldl (linkWord cfg rt) chunk ws) ws
           = foldl (linkWord cfg rt) chunk ws"
  by (rule chunk_fixed) (rule chunk_noMatch [OF assms])

lemma noHeading_weaken: "noHeading ls s \<Longrightarrow> noHeading False s"
  by (cases s) auto

lemma replaceFrom_noHeading:
  assumes "word \<noteq> []"
  shows "noHeading ls rest \<Longrightarrow> noHeading ls (replaceFrom wrap word left rest)"
proof (induction "length rest" arbitrary: ls left rest rule: less_induct)
  case less
  show ?case
  proof (cases "linkMatchAt word left rest")
    case True
    let ?m = "take (length word) rest"
    let ?r2 = "drop (length word) rest"
    let ?o1 = "replaceFrom wrap word (rev ?m @ left) ?r2"
    have len: "length word \<le> length rest" using True by (simp add: linkMatchAt_def)
    have shorter: "length ?r2 < length rest"
      using len assms by (cases word) auto
    have "noHeading ls (?m @ ?r2)" using less.prems by simp
    then have m: "noHeading ls ?m" and r2: "noHeading (lineStartAfter ls ?m) ?r2"
      by (simp_all only: noHeading_append)
    have o1: "noHeading False ?o1"
      using less.hyps [OF shorter r2] by (rule noHeading_weaken)
    have "noHeading ls (''[['' @ ?m @ '']]'' @ ?o1)"
      using noHeading_weaken [OF m] o1
      by (simp add: noHeading_append isLineTerminator_def)
    then show ?thesis
      using True assms by (simp add: replaceFrom_match wrap_def)
  next
    case False
    show ?thesis
    proof (cases rest)
      case Nil
      then show ?thesis using assms by (simp add: replaceFrom_Nil)
    next
      case (Cons c cs)
      then have "noHeading (isLineTerminator c) (replaceFrom wrap word (c # left) cs)"
        using less.prems by (intro less.hyps) simp_all
      then show ?thesis
        using False Cons less.prems by (simp add: replaceFrom_skip)
    qed
  qed
qed

lemma replaceFrom_last:
  assumes "word \<noteq> []"
  shows "rest \<noteq> [] \<Longrightarrow> isLineTerminator (last rest) \<Longrightarrow>
         replaceFrom wrap word left rest \<noteq> []
         \<and> last (replaceFrom wrap word left rest) = last rest"
proof (induction "length rest" arbitrary: left rest rule: less_induct)
  case less
  show ?case
  proof (cases "linkMatchAt word left rest")
    case True
    let ?m = "take (length word) rest"
    let ?r2 = "drop (length word) rest"
    let ?o1 = "replaceFrom wrap word (rev ?m @ left) ?r2"
    have len: "length word \<le> length rest" using True by (simp add: linkMatchAt_def)
    have shorter: "length ?r2 < length rest"
      using len assms by (cases word) auto
    have r2: "?r2 \<noteq> []"
    proof
      assume e: "?r2 = []"
      then have m: "?m = rest" by simp
      have "wordBoundary (rev ?m @ left) ?r2" using True by (simp add: linkMatchAt_def)
      then have "wordBefore (rev rest @ left)"
        by (simp add: e m wordBoundary_def wordAfter_def)
      moreover obtain x xs where "rev rest = x # xs" and "x = last rest"
        using less.prems(1) by (cases "rev rest") (auto simp: last_rev)
      ultimately have "isWordChar (last rest)" by (simp add: wordBefore_def)
      with less.prems(2) show False
        using isLineTerminator_not_word by blast
    qed
    then have l: "last ?r2 = last rest" by simp
    have "?o1 \<noteq> [] \<and> last ?o1 = last ?r2"
      using less.hyps [OF shorter r2] l less.prems(2) by simp
    then show ?thesis
      using True assms l by (simp add: replaceFrom_match wrap_def)
  next
    case False
    obtain c cs where rest: "rest = c # cs"
      using less.prems(1) by (cases rest) auto
    show ?thesis
    proof (cases "cs = []")
      case True
      then show ?thesis
        using False rest assms by (simp add: replaceFrom_skip replaceFrom_Nil)
    next
      case ne: False
      then have "replaceFrom wrap word (c # left) cs \<noteq> []
                 \<and> last (replaceFrom wrap word (c # left) cs) = last cs"
        using less.prems rest by (intro less.hyps) simp_all
      then show ?thesis
        using False rest ne by (simp add: replaceFrom_skip)
    qed
  qed
qed

lemma replaceFrom_lineStartAfter:
  assumes "word \<noteq> []" and "lineStartAfter ls rest"
  shows "lineStartAfter ls (replaceFrom wrap word left rest)"
proof (cases "rest = []")
  case True
  with assms show ?thesis by (simp add: replaceFrom_Nil)
next
  case False
  then show ?thesis
    using assms replaceFrom_last [OF assms(1) False, of left]
    by (simp add: lineStartAfter_def)
qed

lemma replaceFrom_afterHeading:
  assumes "word \<noteq> []" and "afterHeading rest"
  shows "afterHeading (replaceFrom wrap word [] rest)"
proof (cases rest)
  case Nil
  with assms show ?thesis by (simp add: replaceFrom_Nil)
next
  case (Cons c cs)
  then have "\<not> isWordChar c"
    using assms(2) isLineTerminator_not_word by (simp add: afterHeading_def)
  then have "\<not> linkMatchAt word [] (c # cs)"
    by (simp add: linkMatchAt_def wordBoundary_def wordBefore_def wordAfter_def)
  then show ?thesis
    using Cons assms(2) by (simp add: replaceFrom_skip afterHeading_def)
qed

lemma replaceFrom_no_hash:
  assumes "word \<noteq> []" and "\<not> prefix ''#'' rest"
  shows "\<not> prefix ''#'' (replaceFrom wrap word left rest)"
proof (cases "linkMatchAt word left rest")
  case True
  then show ?thesis using assms(1) by (simp add: replaceFrom_match wrap_def)
next
  case False
  then show ?thesis
    using assms by (cases rest) (simp_all add: replaceFrom_Nil replaceFrom_skip)
qed

lemma foldl_linkWord_preserves:
  assumes "\<And>w chunk. w \<in> set ws \<Longrightarrow> P chunk \<Longrightarrow> P (linkWord cfg rt chunk w)" and "P b"
  shows "P (foldl (linkWord cfg rt) b ws)"
  using assms by (induction ws arbitrary: b) auto

lemma linkWord_shape:
  assumes "\<not> existingFilesOnly cfg" and "w \<noteq> []"
  shows "noHeading ls chunk \<Longrightarrow> noHeading ls (linkWord cfg rt chunk w)"
    and "lineStartAfter ls chunk \<Longrightarrow> lineStartAfter ls (linkWord cfg rt chunk w)"
    and "afterHeading chunk \<Longrightarrow> afterHeading (linkWord cfg rt chunk w)"
    and "\<not> prefix ''#'' chunk \<Longrightarrow> \<not> prefix ''#'' (linkWord cfg rt chunk w)"
  unfolding linkWord_off [OF assms(1)]
  using assms(2)
  by (simp_all add: replaceFrom_noHeading replaceFrom_lineStartAfter replaceFrom_afterHeading
        replaceFrom_no_hash)

lemma body_shape:
  assumes "\<not> existingFilesOnly cfg" and "\<forall>w \<in> set ws. w \<noteq> []"
  shows "noHeading ls b \<Longrightarrow> noHeading ls (foldl (linkWord cfg rt) b ws)"
    and "lineStartAfter ls b \<Longrightarrow> lineStartAfter ls (foldl (linkWord cfg rt) b ws)"
    and "afterHeading b \<Longrightarrow> afterHeading (foldl (linkWord cfg rt) b ws)"
    and "\<not> prefix ''#'' b \<Longrightarrow> \<not> prefix ''#'' (foldl (linkWord cfg rt) b ws)"
proof -
  show "noHeading ls b \<Longrightarrow> noHeading ls (foldl (linkWord cfg rt) b ws)"
    by (rule foldl_linkWord_preserves [where P = "noHeading ls"])
       (use assms in \<open>auto intro: linkWord_shape(1)\<close>)
  show "lineStartAfter ls b \<Longrightarrow> lineStartAfter ls (foldl (linkWord cfg rt) b ws)"
    by (rule foldl_linkWord_preserves [where P = "lineStartAfter ls"])
       (use assms in \<open>auto intro: linkWord_shape(2)\<close>)
  show "afterHeading b \<Longrightarrow> afterHeading (foldl (linkWord cfg rt) b ws)"
    by (rule foldl_linkWord_preserves [where P = afterHeading])
       (use assms in \<open>auto intro: linkWord_shape(3)\<close>)
  show "\<not> prefix ''#'' b \<Longrightarrow> \<not> prefix ''#'' (foldl (linkWord cfg rt) b ws)"
    by (rule foldl_linkWord_preserves [where P = "\<lambda>x. \<not> prefix ''#'' x"])
       (use assms linkWord_shape(4) in blast)+
qed

text \<open>What \<^verbatim>\<open>linkWords\<close> does to one body chunk, by the flag.\<close>

definition linkBody :: "settings \<Rightarrow> tabstract \<Rightarrow> string list \<Rightarrow> bool \<Rightarrow> string \<Rightarrow> string" where
  "linkBody cfg rt ws ex b = (if ex then b else foldl (linkWord cfg rt) b ws)"

lemma linkBody_shape:
  assumes "\<not> existingFilesOnly cfg" and "\<forall>w \<in> set ws. w \<noteq> []"
  shows "noHeading ls b \<Longrightarrow> noHeading ls (linkBody cfg rt ws ex b)"
    and "lineStartAfter ls b \<Longrightarrow> lineStartAfter ls (linkBody cfg rt ws ex b)"
    and "afterHeading b \<Longrightarrow> afterHeading (linkBody cfg rt ws ex b)"
    and "\<not> prefix ''#'' b \<Longrightarrow> \<not> prefix ''#'' (linkBody cfg rt ws ex b)"
  using body_shape [OF assms] by (simp_all add: linkBody_def)

lemma linkSections_body:
  "\<not> prefix ''#'' b \<Longrightarrow>
   linkSections cfg rt ws ex (b # secs) = linkBody cfg rt ws ex b # linkSections cfg rt ws ex secs"
  by (simp add: linkBody_def)

lemma linkSections_heading_Cons:
  "prefix ''#'' h \<Longrightarrow>
   linkSections cfg rt ws ex (h # secs) = h # linkSections cfg rt ws (isExcluded cfg h) secs"
  by simp

lemma body_no_hash: "sectionsOK ls (b # secs) \<Longrightarrow> ls \<or> afterHeading b \<Longrightarrow> \<not> prefix ''#'' b"
  using sectionsOK_alternate [of ls "b # secs" 0] by simp

lemma linkSections_sectionsOK:
  assumes off: "\<not> existingFilesOnly cfg" and ne: "\<forall>w \<in> set ws. w \<noteq> []"
  shows "sectionsOK ls secs \<Longrightarrow> ls \<or> afterHeading (hd secs) \<Longrightarrow>
         sectionsOK ls (linkSections cfg rt ws ex secs)"
proof (induction ls secs arbitrary: ex rule: sectionsOK.induct)
  case (1 lineStart)
  then show ?case by simp
next
  case (2 lineStart b)
  have "\<not> prefix ''#'' b"
    using 2 body_no_hash [of lineStart b "[]"] by simp
  then have "linkSections cfg rt ws ex [b] = [linkBody cfg rt ws ex b]"
    by (simp add: linkBody_def)
  then show ?case
    using 2 linkBody_shape(1) [OF off ne] by simp
next
  case (3 lineStart b h rest)
  have nb: "\<not> prefix ''#'' b"
    using "3.prems" body_no_hash [of lineStart b "h # rest"] by simp
  have h: "prefix ''#'' h"
    using "3.prems" by (simp add: isHeadingLine_def)
  obtain b2 rest2 where rest: "rest = b2 # rest2" and ah: "afterHeading b2"
    using "3.prems" by (cases rest) auto
  have nb2: "\<not> prefix ''#'' b2"
    using ah by (rule afterHeading_no_hash)
  have ok: "sectionsOK False (linkSections cfg rt ws (isExcluded cfg h) rest)"
    using "3.prems" ah rest by (intro "3.IH") simp_all
  have out: "linkSections cfg rt ws ex (b # h # rest)
               = linkBody cfg rt ws ex b # h
                 # linkBody cfg rt ws (isExcluded cfg h) b2
                 # linkSections cfg rt ws (isExcluded cfg h) rest2"
    using nb h nb2 by (simp add: rest linkBody_def)
  have ok': "sectionsOK False (linkBody cfg rt ws (isExcluded cfg h) b2
               # linkSections cfg rt ws (isExcluded cfg h) rest2)"
    using ok nb2 by (cases "isExcluded cfg h") (simp_all add: rest linkBody_def)
  show ?case
    unfolding out
    using "3.prems" ok' linkBody_shape(1,2) [OF off ne] linkBody_shape(3) [OF off ne ah]
    by simp
qed

lemma linkSections_twice:
  assumes off: "\<not> existingFilesOnly cfg" and ws: "\<forall>w \<in> set ws. w \<noteq> [] \<and> tame w"
  shows "linkSections cfg rt ws ex (linkSections cfg rt ws ex secs) = linkSections cfg rt ws ex secs"
proof (induction secs arbitrary: ex)
  case Nil
  then show ?case by simp
next
  case (Cons s secs)
  have ne: "\<forall>w \<in> set ws. w \<noteq> []" using ws by simp
  show ?case
  proof (cases "prefix ''#'' s")
    case True
    then show ?thesis using Cons by simp
  next
    case False
    have nh: "\<not> prefix ''#'' (linkBody cfg rt ws ex s)"
      using False by (rule linkBody_shape(4) [OF off ne])
    have "linkBody cfg rt ws ex (linkBody cfg rt ws ex s) = linkBody cfg rt ws ex s"
      using chunk_idempotent [OF off ws] by (simp add: linkBody_def)
    then show ?thesis
      using Cons by (simp only: linkSections_body [OF False] linkSections_body [OF nh])
  qed
qed

lemma linkWords_idempotent:
  assumes "\<not> existingFilesOnly cfg"
    and "\<forall>w \<in> set words. w \<noteq> [] \<and> \<not> sublist ''[['' w \<and> \<not> sublist '']]'' w"
  shows "linkWords cfg rt (linkWords cfg rt content words) words = linkWords cfg rt content words"
proof -
  let ?out = "linkSections cfg rt words False (splitSections content)"
  have ws: "\<forall>w \<in> set words. w \<noteq> [] \<and> tame w"
    using assms(2) by (simp add: tame_def)
  then have ne: "\<forall>w \<in> set words. w \<noteq> []" by simp
  have "sectionsOK True ?out"
    unfolding splitSections_def
    by (rule linkSections_sectionsOK [OF assms(1) ne sectionsOK_splitHeadings]) simp
  then have "splitSections (concat ?out) = ?out"
    by (simp add: splitSections_def splitHeadings_concat)
  then show ?thesis
    by (simp add: linkWords_def linkSections_twice [OF assms(1) ws])
qed

lemma linkWord_wrapped:
  assumes "word \<noteq> []" "tame word" "ciEq m word"
  shows "linkWord cfg rt (''[['' @ m @ '']]'') word = ''[['' @ m @ '']]''"
  using wrapped_noMatch [OF assms, of "[]"]
  by (simp add: linkWord_def replaceLinks_def replaceFrom_noMatch)

text \<open>
  C1. The claim: a second run of \<^verbatim>\<open>linkWords\<close> on its own output changes nothing,
  and text already wrapped in link brackets is left as it is. Neither holds in general.
  The pattern only excludes an occurrence that has \<^verbatim>\<open>[[\<close> directly before it or
  \<^verbatim>\<open>]]\<close> directly after it, so \<^verbatim>\<open>York\<close> inside \<^verbatim>\<open>[[New York City]]\<close> is wrapped.
  The empty term, which \<^verbatim>\<open>getFileLinks\<close> extracts from \<^verbatim>\<open>[[ ]]\<close>, matches at every
  word boundary, in the output again. A term that ends in \<^verbatim>\<open>[[\<close> hides the occurrence
  that follows it from the first run only, and a term that begins with \<^verbatim>\<open>]]\<close> the
  occurrence before it. With \<^verbatim>\<open>existingFilesOnly\<close> on, a match that is left unwrapped
  because no file has its name can cover an occurrence that a later run wraps.
\<close>

theorem linkWords_not_idempotent:
  "linkWords DEFAULT_SETTINGS exRoot ''[[New York City]]'' [''York''] = ''[[New [[York]] City]]''
   \<and> linkWords DEFAULT_SETTINGS exRoot ''[[New York City]]'' [''York''] \<noteq> ''[[New York City]]''
   \<and> extractLinks ''see [[ ]]'' = ['''']
   \<and> linkWords DEFAULT_SETTINGS exRoot ''a'' [''''] = ''[[]]a[[]]''
   \<and> linkWords DEFAULT_SETTINGS exRoot (linkWords DEFAULT_SETTINGS exRoot ''a'' ['''']) ['''']
       = ''[[]][[]]a[[]][[]]''
   \<and> linkWords DEFAULT_SETTINGS exRoot (linkWords DEFAULT_SETTINGS exRoot ''a'' ['''']) ['''']
       \<noteq> linkWords DEFAULT_SETTINGS exRoot ''a'' ['''']
   \<and> linkWords DEFAULT_SETTINGS exRoot ''a[[a[[a'' [''a[['']  = ''[[a[[]]a[[a''
   \<and> linkWords DEFAULT_SETTINGS exRoot
         (linkWords DEFAULT_SETTINGS exRoot ''a[[a[[a'' [''a[['']) [''a[['']
       = ''[[a[[]][[a[[]]a''
   \<and> linkWords DEFAULT_SETTINGS exRoot ''a]]a]]a'' ['']]a''] = ''a]]a[[]]a]]''
   \<and> linkWords DEFAULT_SETTINGS exRoot
         (linkWords DEFAULT_SETTINGS exRoot ''a]]a]]a'' ['']]a'']) ['']]a'']
       = ''a[[]]a]][[]]a]]''
   \<and> linkWords gateCfg gateRoot ''A B a b a'' [''a b a'', ''b''] = ''A [[B]] a b a''
   \<and> linkWords gateCfg gateRoot
         (linkWords gateCfg gateRoot ''A B a b a'' [''a b a'', ''b'']) [''a b a'', ''b'']
       = ''A [[B]] [[a b a]]''"
  by code_simp

text \<open>
  C1, amended. With \<^verbatim>\<open>existingFilesOnly\<close> off and a word list whose words are not
  empty and hold neither \<^verbatim>\<open>[[\<close> nor \<^verbatim>\<open>]]\<close>, a second run of \<^verbatim>\<open>linkWords\<close> on
  its own output returns that output. The pass of such a word leaves a chunk that is
  exactly a wrapped occurrence of it, in any case that the \<^verbatim>\<open>i\<close> flag equates with
  it, as it is, and the pattern of any word matches at no place that has \<^verbatim>\<open>[[\<close>
  directly before it or \<^verbatim>\<open>]]\<close> directly after it.
\<close>

theorem linkWords_fixed_point:
  "(\<not> existingFilesOnly cfg
      \<and> (\<forall>w \<in> set words. w \<noteq> [] \<and> \<not> sublist ''[['' w \<and> \<not> sublist '']]'' w)
    \<longrightarrow> linkWords cfg rt (linkWords cfg rt content words) words
          = linkWords cfg rt content words)
   \<and> (word \<noteq> [] \<and> \<not> sublist ''[['' word \<and> \<not> sublist '']]'' word \<and> ciEq m word
    \<longrightarrow> linkWord cfg rt (''[['' @ m @ '']]'') word = ''[['' @ m @ '']]'')
   \<and> (prefix ''[['' left \<or> prefix '']]'' (drop (length word) rest)
    \<longrightarrow> \<not> linkMatchAt word left rest)"
proof (intro conjI impI)
  assume "\<not> existingFilesOnly cfg
      \<and> (\<forall>w \<in> set words. w \<noteq> [] \<and> \<not> sublist ''[['' w \<and> \<not> sublist '']]'' w)"
  then show "linkWords cfg rt (linkWords cfg rt content words) words
          = linkWords cfg rt content words"
    by (intro linkWords_idempotent) simp_all
next
  assume "word \<noteq> [] \<and> \<not> sublist ''[['' word \<and> \<not> sublist '']]'' word \<and> ciEq m word"
  then show "linkWord cfg rt (''[['' @ m @ '']]'') word = ''[['' @ m @ '']]''"
    by (intro linkWord_wrapped) (simp_all add: tame_def)
next
  assume "prefix ''[['' left \<or> prefix '']]'' (drop (length word) rest)"
  then show "\<not> linkMatchAt word left rest"
    by (auto simp: linkMatchAt_def)
qed

text \<open>
  The words of the second list hold single brackets and a letter of the Latin-1
  supplement: \<^verbatim>\<open>na\<close>, 0xEF, \<^verbatim>\<open>ve\<close> matches \<^verbatim>\<open>NA\<close>, 0xCF, \<^verbatim>\<open>VE\<close>.
\<close>

theorem linkWords_fixed_point_witness:
  "linkWords DEFAULT_SETTINGS exRoot exText exWords
     = ''[[Paris]] and [[New [[York]] City]]. [[paris]]\<newline># Paris\<newline>[[york]]''
   \<and> linkWords DEFAULT_SETTINGS exRoot (linkWords DEFAULT_SETTINGS exRoot exText exWords) exWords
     = linkWords DEFAULT_SETTINGS exRoot exText exWords
   \<and> linkWords DEFAULT_SETTINGS exRoot latinText latinWords
     = ''a [[NA'' @ [CHR 0xCF] @ ''VE]] b [[x]y]] [[c[d]]''
   \<and> linkWords DEFAULT_SETTINGS exRoot
         (linkWords DEFAULT_SETTINGS exRoot latinText latinWords) latinWords
     = linkWords DEFAULT_SETTINGS exRoot latinText latinWords
   \<and> linkWord DEFAULT_SETTINGS exRoot ''[[cat]]'' ''Cat'' = ''[[cat]]''
   \<and> linkWord DEFAULT_SETTINGS exRoot (''[[NA'' @ [CHR 0xCF] @ ''VE]]'') (''na'' @ [CHR 0xEF] @ ''ve'')
     = ''[[NA'' @ [CHR 0xCF] @ ''VE]]''
   \<and> \<not> linkMatchAt ''Cat'' ''[[ ees'' ''cat]] sat''"
proof -
  have h: "\<not> existingFilesOnly DEFAULT_SETTINGS
           \<and> (\<forall>w \<in> set exWords. w \<noteq> [] \<and> \<not> sublist ''[['' w \<and> \<not> sublist '']]'' w)"
    by code_simp
  have hl: "\<not> existingFilesOnly DEFAULT_SETTINGS
           \<and> (\<forall>w \<in> set latinWords. w \<noteq> [] \<and> \<not> sublist ''[['' w \<and> \<not> sublist '']]'' w)"
    by code_simp
  have c: "''Cat'' \<noteq> [] \<and> \<not> sublist ''[['' ''Cat'' \<and> \<not> sublist '']]'' ''Cat''
           \<and> ciEq ''cat'' ''Cat''"
    by code_simp
  have cl: "''na'' @ [CHR 0xEF] @ ''ve'' \<noteq> []
            \<and> \<not> sublist ''[['' (''na'' @ [CHR 0xEF] @ ''ve'')
            \<and> \<not> sublist '']]'' (''na'' @ [CHR 0xEF] @ ''ve'')
            \<and> ciEq (''NA'' @ [CHR 0xCF] @ ''VE'') (''na'' @ [CHR 0xEF] @ ''ve'')"
    by code_simp
  have p: "prefix ''[['' ''[[ ees'' \<or> prefix '']]'' (drop (length ''Cat'') ''cat]] sat'')"
    by code_simp
  have e: "linkWords DEFAULT_SETTINGS exRoot exText exWords
     = ''[[Paris]] and [[New [[York]] City]]. [[paris]]\<newline># Paris\<newline>[[york]]''"
    by code_simp
  have el: "linkWords DEFAULT_SETTINGS exRoot latinText latinWords
     = ''a [[NA'' @ [CHR 0xCF] @ ''VE]] b [[x]y]] [[c[d]]''"
    by code_simp
  have 1: "linkWords DEFAULT_SETTINGS exRoot (linkWords DEFAULT_SETTINGS exRoot exText exWords) exWords
     = linkWords DEFAULT_SETTINGS exRoot exText exWords"
    using linkWords_fixed_point
            [where cfg = DEFAULT_SETTINGS and words = exWords and rt = exRoot and content = exText]
          h
    by blast
  have 2: "linkWords DEFAULT_SETTINGS exRoot
             (linkWords DEFAULT_SETTINGS exRoot latinText latinWords) latinWords
     = linkWords DEFAULT_SETTINGS exRoot latinText latinWords"
    using linkWords_fixed_point
            [where cfg = DEFAULT_SETTINGS and words = latinWords and rt = exRoot
               and content = latinText]
          hl
    by blast
  have 3: "linkWord DEFAULT_SETTINGS exRoot (''[['' @ ''cat'' @ '']]'') ''Cat''
                   = ''[['' @ ''cat'' @ '']]''"
    using linkWords_fixed_point
            [where cfg = DEFAULT_SETTINGS and rt = exRoot and word = "''Cat''" and m = "''cat''"]
          c
    by blast
  have 4: "linkWord DEFAULT_SETTINGS exRoot (''[['' @ (''NA'' @ [CHR 0xCF] @ ''VE'') @ '']]'')
             (''na'' @ [CHR 0xEF] @ ''ve'')
           = ''[['' @ (''NA'' @ [CHR 0xCF] @ ''VE'') @ '']]''"
    using linkWords_fixed_point
            [where cfg = DEFAULT_SETTINGS and rt = exRoot
               and word = "''na'' @ [CHR 0xEF] @ ''ve''" and m = "''NA'' @ [CHR 0xCF] @ ''VE''"]
          cl
    by blast
  have 5: "\<not> linkMatchAt ''Cat'' ''[[ ees'' ''cat]] sat''"
    using linkWords_fixed_point
            [where word = "''Cat''" and left = "''[[ ees''" and rest = "''cat]] sat''"]
          p
    by blast
  show ?thesis
    using e el 1 2 3 4 5 by simp
qed


section \<open>The link extractor\<close>

declare linkCaptures.simps [simp del]
declare getLinksLoop.simps [simp del]

lemma getLinksLoop_captures:
  "getLinksLoop content links
     = links @ filter keepLink (map linkTarget (linkCaptures content))"
proof (induction content links rule: getLinksLoop.induct)
  case (1 content links)
  show ?case
  proof (cases "execLink content")
    case None
    then show ?thesis
      by (simp add: getLinksLoop.simps [of content] linkCaptures.simps [of content])
  next
    case (Some r)
    obtain capture rest where r: "r = (capture, rest)" by (cases r)
    show ?thesis
      using 1 [OF Some [unfolded r] refl refl] Some r
      by (simp add: getLinksLoop.simps [of content] linkCaptures.simps [of content] Let_def)
  qed
qed

lemma includesStr_dot: "includesStr link ''.'' = (CHR ''.'' \<in> set link)"
  by (induction link) auto

lemma splitOn_no_sep: "sep \<notin> set s \<Longrightarrow> splitOn sep s = [s]"
  by (induction s) auto

lemma splitOn_first:
  "sep \<notin> set s \<Longrightarrow> splitOn sep (s @ sep # t) = s # splitOn sep t"
  by (induction s) auto

lemma linkTarget_plain: "CHR ''|'' \<notin> set target \<Longrightarrow> linkTarget target = trim target"
  by (simp add: linkTarget_def splitOn_no_sep)

lemma linkTarget_alias:
  "CHR ''|'' \<notin> set target \<Longrightarrow> linkTarget (target @ ''|'' @ display) = trim target"
  by (simp add: linkTarget_def splitOn_first)

lemma matchLinkAt_markup:
  assumes "inner \<noteq> []" and "CHR '']'' \<notin> set inner"
  shows "matchLinkAt (''[['' @ inner @ '']]'' @ post) = Some (inner, post)"
proof -
  have "takeWhile (\<lambda>x. x \<noteq> CHR '']'') (inner @ '']]'' @ post) = inner"
    using assms(2) by (induction inner) auto
  moreover have "dropWhile (\<lambda>x. x \<noteq> CHR '']'') (inner @ '']]'' @ post) = '']]'' @ post"
    using assms(2) by (induction inner) auto
  ultimately show ?thesis
    using assms(1) by (simp add: matchLinkAt_def Let_def)
qed

lemma matchLinkAt_no_prefix: "\<not> prefix ''[['' s \<Longrightarrow> matchLinkAt s = None"
  by (simp add: matchLinkAt_def)

lemma execLink_skip:
  assumes "\<not> sublist ''[['' (pre @ ''['')"
  shows "execLink (pre @ ''[['' @ t) = execLink (''[['' @ t)"
  using assms
proof (induction pre)
  case Nil
  then show ?case by simp
next
  case (Cons c pre)
  have np: "\<not> prefix ''[['' (c # pre @ ''['')" and ns: "\<not> sublist ''[['' (pre @ ''['')"
    using Cons.prems by (auto simp: sublist_Cons_right)
  have "\<not> prefix ''[['' (c # pre @ ''[['' @ t)"
    using np by (cases pre) auto
  then have "matchLinkAt (c # pre @ ''[['' @ t) = None"
    by (rule matchLinkAt_no_prefix)
  with Cons.IH [OF ns] show ?case by simp
qed

lemma execLink_none: "\<not> sublist ''[['' s \<Longrightarrow> execLink s = None"
proof (induction s)
  case Nil
  then show ?case by simp
next
  case (Cons c s)
  then have "\<not> prefix ''[['' (c # s)" and ns: "\<not> sublist ''[['' s"
    by (auto simp: sublist_Cons_right)
  then have "matchLinkAt (c # s) = None"
    by (intro matchLinkAt_no_prefix)
  with Cons.IH [OF ns] show ?case by simp
qed

lemma specExtensionSuffix_md:
  "(specExtensionSuffix link = Some ''.md'') = suffix ''.md'' link"
proof
  assume "suffix ''.md'' link"
  then obtain pre where "link = pre @ ''.md''" by (auto simp: suffix_def)
  then show "specExtensionSuffix link = Some ''.md''"
    by (simp add: specExtensionSuffix_def)
next
  let ?P = "\<lambda>c. c \<noteq> CHR ''.''"
  assume a: "specExtensionSuffix link = Some ''.md''"
  have dot: "CHR ''.'' \<in> set link"
    using a by (simp add: specExtensionSuffix_def split: if_splits)
  have "rev (takeWhile ?P (rev link)) = ''md''"
    using a dot by (simp add: specExtensionSuffix_def)
  then have "takeWhile ?P (rev link) = rev ''md''"
    by (metis rev_rev_ident)
  then have tw: "takeWhile ?P (rev link) = ''dm''" by simp
  have ne: "dropWhile ?P (rev link) \<noteq> []"
    using dot by (simp add: dropWhile_eq_Nil_conv)
  then obtain x xs where dw: "dropWhile ?P (rev link) = x # xs"
    by (cases "dropWhile ?P (rev link)") auto
  have "\<not> ?P (hd (dropWhile ?P (rev link)))"
    using ne by (rule hd_dropWhile)
  then have x: "x = CHR ''.''" by (simp add: dw)
  have "rev link = takeWhile ?P (rev link) @ dropWhile ?P (rev link)"
    by simp
  then have "rev link = ''dm'' @ CHR ''.'' # xs"
    by (simp only: tw dw x)
  then have "link = rev (''dm'' @ CHR ''.'' # xs)"
    by (metis rev_rev_ident)
  then have "link = rev xs @ ''.md''" by simp
  then show "suffix ''.md'' link"
    by (simp add: suffix_def)
qed

lemma keepLink_specExtensionSuffix:
  "keepLink link = (specExtensionSuffix link = None \<or> specExtensionSuffix link = Some ''.md'')"
proof -
  have "includesStr link ''.'' = (CHR ''.'' \<in> set link)"
    by (induction link) auto
  moreover have "(specExtensionSuffix link = None) = (CHR ''.'' \<notin> set link)"
    by (simp add: specExtensionSuffix_def)
  ultimately show ?thesis
    by (simp add: keepLink_def specExtensionSuffix_md)
qed

lemma matchLinkAt_iff:
  "(matchLinkAt s = Some (inner, post))
     = (s = ''[['' @ inner @ '']]'' @ post \<and> inner \<noteq> [] \<and> CHR '']'' \<notin> set inner)"
proof
  assume "s = ''[['' @ inner @ '']]'' @ post \<and> inner \<noteq> [] \<and> CHR '']'' \<notin> set inner"
  then show "matchLinkAt s = Some (inner, post)"
    using matchLinkAt_markup [of inner post] by simp
next
  let ?P = "\<lambda>x. x \<noteq> CHR '']''"
  assume a: "matchLinkAt s = Some (inner, post)"
  then have p: "prefix ''[['' s"
    by (simp add: matchLinkAt_def split: if_splits)
  then have s: "s = ''[['' @ drop 2 s"
    by (auto simp: prefix_def)
  have run: "inner = takeWhile ?P (drop 2 s)" and ne: "inner \<noteq> []"
    and pr: "prefix '']]'' (dropWhile ?P (drop 2 s))"
    and post: "post = drop 2 (dropWhile ?P (drop 2 s))"
    using a p by (auto simp: matchLinkAt_def Let_def split: if_splits)
  have "dropWhile ?P (drop 2 s) = '']]'' @ post"
    using pr post by (auto simp: prefix_def)
  then have "drop 2 s = inner @ '']]'' @ post"
    using run takeWhile_dropWhile_id [of ?P "drop 2 s"] by simp
  then have "s = ''[['' @ inner @ '']]'' @ post"
    using s by simp
  moreover have "CHR '']'' \<notin> set inner"
    using run set_takeWhileD [of "CHR '']''" ?P "drop 2 s"] by auto
  ultimately show "s = ''[['' @ inner @ '']]'' @ post \<and> inner \<noteq> [] \<and> CHR '']'' \<notin> set inner"
    using ne by simp
qed

lemma linkTarget_takeWhile:
  "linkTarget capture = trim (takeWhile (\<lambda>x. x \<noteq> CHR ''|'') capture)"
proof -
  have "(case splitOn sep s of [] \<Rightarrow> [] | x # _ \<Rightarrow> x) = takeWhile (\<lambda>x. x \<noteq> sep) s"
    for sep :: char and s
    by (induction s) (auto split: list.splits)
  then show ?thesis
    by (simp add: linkTarget_def)
qed

lemma extractLinks_match:
  assumes "matchLinkAt (c # cs) = Some (inner, post)"
  shows "extractLinks (c # cs)
           = (if keepLink (linkTarget inner) then [linkTarget inner] else []) @ extractLinks post"
proof -
  have "linkCaptures (c # cs) = inner # linkCaptures post"
    using assms by (subst linkCaptures.simps) simp
  then show ?thesis
    by (simp add: extractLinks_def getLinksLoop_captures)
qed

lemma extractLinks_no_match:
  assumes "matchLinkAt (c # cs) = None"
  shows "extractLinks (c # cs) = extractLinks cs"
proof -
  have "linkCaptures (c # cs) = linkCaptures cs"
    using assms by (simp add: linkCaptures.simps [of "c # cs"] linkCaptures.simps [of cs])
  then show ?thesis
    by (simp add: extractLinks_def getLinksLoop_captures)
qed

text \<open>
  C8. \<^verbatim>\<open>getFileLinks\<close> reads the text from left to right. Where the text reads
  \<^verbatim>\<open>[[inner]]\<close>, with an inner text that is not empty and holds no \<^verbatim>\<open>]\<close>, there is a
  match, its target is the inner text up to the first \<^verbatim>\<open>|\<close>, trimmed, and the reading
  goes on after the closing brackets; anywhere else the reading goes on one character to
  the right, also at an opening \<^verbatim>\<open>[[\<close> that is not closed in this way. The result
  holds, in this order, the targets that are kept. A target is kept exactly when it holds
  no dot or ends in \<^verbatim>\<open>.md\<close>, that is, when it has no extension-like suffix or its suffix
  is \<^verbatim>\<open>.md\<close>.
\<close>

theorem extractor_targets:
  "(matchLinkAt s = Some (inner, post))
     = (s = ''[['' @ inner @ '']]'' @ post \<and> inner \<noteq> [] \<and> CHR '']'' \<notin> set inner)
   \<and> extractLinks [] = []
   \<and> (matchLinkAt (c # cs) = Some (capture, rest) \<longrightarrow>
        extractLinks (c # cs)
          = (if keepLink (linkTarget capture) then [linkTarget capture] else [])
            @ extractLinks rest)
   \<and> (matchLinkAt (c # cs) = None \<longrightarrow> extractLinks (c # cs) = extractLinks cs)
   \<and> linkTarget target = trim (takeWhile (\<lambda>x. x \<noteq> CHR ''|'') target)
   \<and> (CHR ''|'' \<notin> set target \<longrightarrow>
        linkTarget target = trim target \<and> linkTarget (target @ ''|'' @ display) = trim target)
   \<and> keepLink link = (CHR ''.'' \<notin> set link \<or> suffix ''.md'' link)
   \<and> keepLink link
       = (specExtensionSuffix link = None \<or> specExtensionSuffix link = Some ''.md'')
   \<and> extractLinks content = filter keepLink (map linkTarget (linkCaptures content))
   \<and> (\<not> sublist ''[['' (pre @ ''['') \<and> inner \<noteq> [] \<and> CHR '']'' \<notin> set inner \<longrightarrow>
        linkCaptures (pre @ ''[['' @ inner @ '']]'' @ post) = inner # linkCaptures post)
   \<and> (\<not> sublist ''[['' content \<longrightarrow> linkCaptures content = [])"
proof (intro conjI impI)
  show "(matchLinkAt s = Some (inner, post))
     = (s = ''[['' @ inner @ '']]'' @ post \<and> inner \<noteq> [] \<and> CHR '']'' \<notin> set inner)"
    by (rule matchLinkAt_iff)
  show "extractLinks [] = []"
    by (simp add: extractLinks_def getLinksLoop.simps [of "[]"])
  show "linkTarget target = trim (takeWhile (\<lambda>x. x \<noteq> CHR ''|'') target)"
    by (rule linkTarget_takeWhile)
  show "extractLinks content = filter keepLink (map linkTarget (linkCaptures content))"
    by (simp add: extractLinks_def getLinksLoop_captures)
  show "keepLink link = (CHR ''.'' \<notin> set link \<or> suffix ''.md'' link)"
    by (simp add: keepLink_def includesStr_dot)
  show "keepLink link
       = (specExtensionSuffix link = None \<or> specExtensionSuffix link = Some ''.md'')"
    by (rule keepLink_specExtensionSuffix)
next
  assume "matchLinkAt (c # cs) = Some (capture, rest)"
  then show "extractLinks (c # cs)
          = (if keepLink (linkTarget capture) then [linkTarget capture] else [])
            @ extractLinks rest"
    by (rule extractLinks_match)
next
  assume "matchLinkAt (c # cs) = None"
  then show "extractLinks (c # cs) = extractLinks cs"
    by (rule extractLinks_no_match)
next
  assume t: "CHR ''|'' \<notin> set target"
  show "linkTarget target = trim target"
    using t by (rule linkTarget_plain)
  show "linkTarget (target @ ''|'' @ display) = trim target"
    using t by (rule linkTarget_alias)
next
  assume a: "\<not> sublist ''[['' (pre @ ''['') \<and> inner \<noteq> [] \<and> CHR '']'' \<notin> set inner"
  then have "execLink (pre @ ''[['' @ inner @ '']]'' @ post) = Some (inner, post)"
    using execLink_skip [of pre "inner @ '']]'' @ post"] matchLinkAt_markup [of inner post]
    by simp
  then show "linkCaptures (pre @ ''[['' @ inner @ '']]'' @ post) = inner # linkCaptures post"
    by (subst linkCaptures.simps) simp
next
  assume "\<not> sublist ''[['' content"
  then show "linkCaptures content = []"
    by (simp add: linkCaptures.simps [of content] execLink_none)
qed

text \<open>
  An opening \<^verbatim>\<open>[[\<close> that is not closed is passed over, and the link after it is
  found: \<^verbatim>\<open>[[a] [[b]]\<close> gives \<^verbatim>\<open>b\<close>. The no-break space 0xA0 is trimmed from a
  target.
\<close>

theorem extractor_targets_witness:
  "linkCaptures ''see [[Paris]] and [[ Rome | the city]], [[img.png]], [[note.md]] [[x]''
     = ''Paris'' # linkCaptures '' and [[ Rome | the city]], [[img.png]], [[note.md]] [[x]''
   \<and> linkTarget '' Rome | the city'' = ''Rome''
   \<and> extractLinks ''see [[Paris]] and [[ Rome | the city]], [[img.png]], [[note.md]] [[x]''
     = [''Paris'', ''Rome'', ''note.md'']
   \<and> matchLinkAt ''[[a] [[b]]'' = None
   \<and> extractLinks ''[[a] [[b]]'' = extractLinks ''[a] [[b]]''
   \<and> extractLinks ''[[a] [[b]]'' = [''b'']
   \<and> extractLinks ''[[ Rome | the city]], [[img.png]]'' = [''Rome''] @ extractLinks '', [[img.png]]''
   \<and> extractLinks ''[[img.png]] [[b]]'' = extractLinks '' [[b]]''
   \<and> extractLinks (''[['' @ [CHR 0xA0] @ ''Paris'' @ [CHR 0xA0] @ ''|x]]'') = [''Paris'']"
proof -
  have h: "\<not> sublist ''[['' (''see '' @ ''['') \<and> ''Paris'' \<noteq> [] \<and> CHR '']'' \<notin> set ''Paris''"
    by code_simp
  have b: "CHR ''|'' \<notin> set '' Rome ''" and t: "trim '' Rome '' = ''Rome''"
    by code_simp+
  have e: "extractLinks ''see [[Paris]] and [[ Rome | the city]], [[img.png]], [[note.md]] [[x]''
     = [''Paris'', ''Rome'', ''note.md'']"
    by code_simp
  have n: "matchLinkAt (CHR ''['' # ''[a] [[b]]'') = None"
    by code_simp
  have eb: "extractLinks ''[[a] [[b]]'' = [''b'']"
    by code_simp
  have m: "matchLinkAt (CHR ''['' # ''[ Rome | the city]], [[img.png]]'')
             = Some ('' Rome | the city'', '', [[img.png]]'')"
    by code_simp
  have k: "keepLink (linkTarget '' Rome | the city'')"
    and lt: "linkTarget '' Rome | the city'' = ''Rome''"
    by code_simp+
  have mi: "matchLinkAt (CHR ''['' # ''[img.png]] [[b]]'') = Some (''img.png'', '' [[b]]'')"
    by code_simp
  have ki: "\<not> keepLink (linkTarget ''img.png'')"
    by code_simp
  have nb: "extractLinks (''[['' @ [CHR 0xA0] @ ''Paris'' @ [CHR 0xA0] @ ''|x]]'') = [''Paris'']"
    by code_simp
  have 1: "linkCaptures (''see '' @ ''[['' @ ''Paris'' @ '']]''
            @ '' and [[ Rome | the city]], [[img.png]], [[note.md]] [[x]'')
          = ''Paris'' # linkCaptures '' and [[ Rome | the city]], [[img.png]], [[note.md]] [[x]''"
    using extractor_targets
            [where pre = "''see ''" and inner = "''Paris''"
               and post = "'' and [[ Rome | the city]], [[img.png]], [[note.md]] [[x]''"]
          h
    by blast
  have 2: "linkTarget ('' Rome '' @ ''|'' @ '' the city'') = trim '' Rome ''"
    using extractor_targets [where target = "'' Rome ''" and display = "'' the city''"] b
    by blast
  have 3: "extractLinks (CHR ''['' # ''[a] [[b]]'') = extractLinks ''[a] [[b]]''"
    using extractor_targets [where c = "CHR ''[''" and cs = "''[a] [[b]]''"] n
    by blast
  have 4: "extractLinks (CHR ''['' # ''[ Rome | the city]], [[img.png]]'')
             = (if keepLink (linkTarget '' Rome | the city'')
                then [linkTarget '' Rome | the city''] else [])
               @ extractLinks '', [[img.png]]''"
    using extractor_targets
            [where c = "CHR ''[''" and cs = "''[ Rome | the city]], [[img.png]]''"
               and capture = "'' Rome | the city''" and rest = "'', [[img.png]]''"]
          m
    by blast
  have 5: "extractLinks (CHR ''['' # ''[img.png]] [[b]]'')
             = (if keepLink (linkTarget ''img.png'') then [linkTarget ''img.png''] else [])
               @ extractLinks '' [[b]]''"
    using extractor_targets
            [where c = "CHR ''[''" and cs = "''[img.png]] [[b]]''"
               and capture = "''img.png''" and rest = "'' [[b]]''"]
          mi
    by blast
  have r4: "extractLinks ''[[ Rome | the city]], [[img.png]]''
              = [''Rome''] @ extractLinks '', [[img.png]]''"
    using 4 k lt by simp
  have r5: "extractLinks ''[[img.png]] [[b]]'' = extractLinks '' [[b]]''"
    using 5 ki by simp
  have rn: "matchLinkAt ''[[a] [[b]]'' = None"
    using n by simp
  have r3: "extractLinks ''[[a] [[b]]'' = extractLinks ''[a] [[b]]''"
    using 3 by simp
  show ?thesis
    using 1 2 t e rn r3 eb r4 r5 nb by simp
qed


section \<open>The link remover\<close>

lemma getSubstitution_plain:
  "CHR ''$'' \<notin> set link \<Longrightarrow> getSubstitution matched left right link = link"
  by (induction matched left right link rule: getSubstitution.induct) auto

declare removeFrom.simps [simp del]

lemma removeFrom_Nil: "removeFrom link left [] = []"
  by (subst removeFrom.simps) (simp add: removeMatchAt_def)

lemma removeFrom_unwrap:
  assumes "CHR ''$'' \<notin> set link" and "ciEq inner link"
  shows "removeFrom link left (''[['' @ inner @ '']]'' @ post)
           = link @ removeFrom link (rev (''[['' @ inner @ '']]'') @ left) post"
proof -
  have n: "length inner = length link"
    using assms(2) by (rule ciEq_len)
  let ?m = "''[['' @ inner @ '']]''"
  have l: "length ?m = length link + 4"
    by (simp add: n)
  have t: "take (length link + 4) (?m @ post) = ?m"
    and d: "drop (length link + 4) (?m @ post) = post"
    using l by (metis append_eq_conv_conj)+
  have c: "ciEq ?m (''[['' @ link @ '']]'')"
    using assms(2) by (simp add: ciEq_def)
  have m: "removeMatchAt link (?m @ post)"
    unfolding removeMatchAt_def t using c l by simp
  have "removeFrom link left (?m @ post)
          = getSubstitution ?m (rev left) post link @ removeFrom link (rev ?m @ left) post"
    by (subst removeFrom.simps) (simp only: m t d if_True)
  then show ?thesis
    by (simp add: getSubstitution_plain assms(1))
qed

lemma removeFrom_no_match:
  "\<forall>k \<le> length rest. \<not> removeMatchAt link (drop k rest) \<Longrightarrow> removeFrom link left rest = rest"
proof (induction rest arbitrary: left)
  case Nil
  then show ?case by (simp add: removeFrom_Nil)
next
  case (Cons c rest)
  have "\<not> removeMatchAt link (c # rest)"
    using Cons.prems by (metis drop0 le0)
  moreover have "\<forall>k \<le> length rest. \<not> removeMatchAt link (drop k rest)"
  proof (intro allI impI)
    fix k assume "k \<le> length rest"
    then have "\<not> removeMatchAt link (drop (Suc k) (c # rest))"
      using Cons.prems by (metis Suc_le_mono length_Cons)
    then show "\<not> removeMatchAt link (drop k rest)" by simp
  qed
  ultimately show ?case
    using Cons.IH by (subst removeFrom.simps) simp
qed

lemma removeMatchAt_prefix: "removeMatchAt link s \<Longrightarrow> prefix ''[['' s"
proof -
  assume m: "removeMatchAt link s"
  then have len: "length link + 4 \<le> length s"
    and eq: "map canonicalize (take (length link + 4) s) = map canonicalize (''[['' @ link @ '']]'')"
    by (simp_all add: removeMatchAt_def ciEq_def)
  obtain a b r where s: "s = a # b # r"
    using len by (cases s; cases "tl s") auto
  have "take 2 (map canonicalize (take (length link + 4) s))
          = take 2 (map canonicalize (''[['' @ link @ '']]''))"
    using eq by simp
  then have "map canonicalize (take 2 s) = ''[[''"
    by (simp add: take_map min_def)
  then have "canonicalize a = CHR ''[''" and "canonicalize b = CHR ''[''"
    by (simp_all add: s)
  then show ?thesis by (simp add: s)
qed

lemma removeMatchAt_needs_brackets:
  assumes "\<not> sublist ''[['' u"
  shows "\<not> removeMatchAt link (drop k u)"
proof
  assume "removeMatchAt link (drop k u)"
  then have "prefix ''[['' (drop k u)" by (rule removeMatchAt_prefix)
  then obtain r where "drop k u = ''[['' @ r" by (auto simp: prefix_def)
  then have "u = take k u @ ''[['' @ r" by (metis append_take_drop_id)
  then have "sublist ''[['' u" by (metis sublist_appendI)
  with assms show False by simp
qed

text \<open>The aliased form of a term is left as it is.\<close>

lemma removeFrom_alias:
  assumes eq: "ciEq inner link"
    and ni: "CHR ''['' \<notin> set inner" and na: "CHR ''['' \<notin> set alias"
  shows "removeFrom link left (''[['' @ inner @ ''|'' @ alias @ '']]'')
           = ''[['' @ inner @ ''|'' @ alias @ '']]''"
proof (rule removeFrom_no_match, intro allI impI)
  let ?v = "inner @ ''|'' @ alias @ '']]''"
  let ?t = "''[['' @ ?v"
  fix k assume "k \<le> length ?t"
  have n: "length inner = length link" using eq by (rule ciEq_len)
  show "\<not> removeMatchAt link (drop k ?t)"
  proof (cases k)
    case 0
    define xs where "xs = ''[['' @ inner"
    define ys where "ys = ''|'' @ alias @ '']]''"
    define ps where "ps = ''[['' @ link"
    have lx: "length xs = length link + 2" and lp: "length ps = length link + 2"
      by (simp_all add: xs_def ps_def n)
    have t: "?t = xs @ ys" by (simp add: xs_def ys_def)
    have "take (length link + 4) (xs @ ys) = xs @ take 2 ys"
      by (simp add: lx)
    moreover have "map canonicalize (xs @ take 2 ys) \<noteq> map canonicalize (ps @ '']]'')"
    proof
      assume "map canonicalize (xs @ take 2 ys) = map canonicalize (ps @ '']]'')"
      then have "map canonicalize xs @ map canonicalize (take 2 ys)
                = map canonicalize ps @ map canonicalize '']]''"
        by simp
      then have "map canonicalize (take 2 ys) = map canonicalize '']]''"
        using lx lp by (metis append_eq_append_conv length_map)
      then show False by (simp add: ys_def)
    qed
    ultimately have "\<not> removeMatchAt link (xs @ ys)"
      by (simp add: removeMatchAt_def ciEq_def ps_def)
    then show ?thesis
      using 0 t by simp
  next
    case (Suc j)
    have "CHR ''['' \<notin> set ?v" using ni na by simp
    then have "\<not> sublist ''[['' ?v"
      by (metis list.set_intros(1) set_mono_sublist subsetD)
    moreover have "\<not> prefix ''[['' (CHR ''['' # ?v)"
      using ni by (cases inner) auto
    ultimately have "\<not> sublist ''[['' (CHR ''['' # ?v)"
      by (simp add: sublist_Cons_right)
    then have "\<not> removeMatchAt link (drop j (CHR ''['' # ?v))"
      by (rule removeMatchAt_needs_brackets)
    then show ?thesis using Suc by simp
  qed
qed

text \<open>
  C7. The claim: every bracketed occurrence of a removal term is replaced with the bare
  term. \<^verbatim>\<open>removeLinks\<close> hands the term to \<^verbatim>\<open>replace\<close> as the replacement string,
  where a dollar sign starts a template: for the term \<^verbatim>\<open>Revenue $'000\<close> the
  characters \<^verbatim>\<open>$'\<close> are replaced with the text after the match. For a term without
  a dollar sign the occurrence is replaced with the term (\<open>removeFrom_unwrap\<close>), the
  aliased form of a term is left as it is (\<open>removeFrom_alias\<close>), and a text without an
  occurrence is returned as it is (\<open>removeFrom_no_match\<close>).
\<close>

theorem remover_template_dollar:
  "removeLinks ''I visited [[Paris]] and Rome.'' [''Paris''] = ''I visited Paris and Rome.''
   \<and> removeLinks ''[[Revenue $'000]] grew.'' [''Revenue $'000'']
       = ''Revenue  grew.000 grew.''"
  by code_simp

text \<open>
  C9. The claim: an occurrence written in another letter case is replaced with the
  configured term as it is written. So it is for \<^verbatim>\<open>[[paris]]\<close> and the term
  \<^verbatim>\<open>Paris\<close>; for \<^verbatim>\<open>[[us$$]]\<close> and the term \<^verbatim>\<open>US$$\<close> the replacement is
  \<^verbatim>\<open>US$\<close>, the template \<^verbatim>\<open>$$\<close> standing for one dollar sign.
\<close>

theorem remover_case_dollar:
  "removeLinks ''[[paris]]'' [''Paris''] = ''Paris''
   \<and> removeLinks ''[[us$$]]'' [''US$$''] = ''US$''"
  by code_simp


section \<open>The change ledger\<close>

lemma restore_Nil [simp]: "restore sto [] = sto"
  by (simp add: restore_def)

lemma restore_snoc [simp]:
  "restore sto (cs @ [c]) = modify (restore sto cs) (file c) (oldContent c)"
  by (simp add: restore_def)

lemma restore_other:
  "p \<notin> (\<lambda>c. path (file c)) ` set cs \<Longrightarrow> restore sto cs p = sto p"
  by (induction cs rule: rev_induct) (auto simp: modify_def)

lemma restore_upd_other:
  "p \<notin> (\<lambda>c. path (file c)) ` set cs \<Longrightarrow>
   restore (sto(p \<mapsto> v)) cs = (restore sto cs)(p \<mapsto> v)"
  by (induction cs rule: rev_induct) (auto simp: modify_def fun_upd_twist)

text \<open>The three ways \<^verbatim>\<open>autoLinkFile\<close> can end.\<close>

lemma autoLinkFile_cases:
  "autoLinkFile st f = notify (FailedToAutoLink (path f)) st
   \<or> autoLinkFile st f = st
   \<or> (\<exists>content new. texts st (path f) = Some content \<and>
        autoLinkFile st f =
          st\<lparr>lastChanges := lastChanges st @ [\<lparr>file = f, oldContent = content\<rparr>],
             texts := (texts st)(path f \<mapsto> new)\<rparr>)"
  by (auto simp: autoLinkFile_def Let_def read_def modify_def split: option.splits)

lemma autoLinkFile_restore:
  assumes "path f \<notin> (\<lambda>c. path (file c)) ` set (lastChanges st)"
  shows "restore (texts (autoLinkFile st f)) (lastChanges (autoLinkFile st f))
           = restore (texts st) (lastChanges st)"
  using autoLinkFile_cases [of st f]
proof (elim disjE exE conjE)
  fix content new
  assume c: "texts st (path f) = Some content"
    and e: "autoLinkFile st f =
              st\<lparr>lastChanges := lastChanges st @ [\<lparr>file = f, oldContent = content\<rparr>],
                 texts := (texts st)(path f \<mapsto> new)\<rparr>"
  have "restore (texts st) (lastChanges st) (path f) = Some content"
    using assms c by (simp add: restore_other)
  then have "(restore (texts st) (lastChanges st))(path f \<mapsto> content)
               = restore (texts st) (lastChanges st)"
    by (simp add: fun_upd_idem)
  then show ?thesis
    using assms by (simp add: e restore_upd_other modify_def)
qed (simp_all add: notify_def)

lemma autoLinkFile_ledger_paths:
  "(\<lambda>c. path (file c)) ` set (lastChanges (autoLinkFile st f))
     \<subseteq> insert (path f) ((\<lambda>c. path (file c)) ` set (lastChanges st))"
  using autoLinkFile_cases [of st f] by (auto simp: notify_def)

lemma foldl_autoLinkFile_restore:
  assumes "distinct (map path files)"
    and "\<forall>f \<in> set files. path f \<notin> (\<lambda>c. path (file c)) ` set (lastChanges st)"
  shows "restore (texts (foldl autoLinkFile st files)) (lastChanges (foldl autoLinkFile st files))
           = restore (texts st) (lastChanges st)"
  using assms
proof (induction files arbitrary: st)
  case Nil
  then show ?case by simp
next
  case (Cons f files)
  have "\<forall>g \<in> set files.
          path g \<notin> (\<lambda>c. path (file c)) ` set (lastChanges (autoLinkFile st f))"
  proof (intro ballI notI)
    fix g
    assume g: "g \<in> set files"
      and "path g \<in> (\<lambda>c. path (file c)) ` set (lastChanges (autoLinkFile st f))"
    then have "path g \<in> insert (path f) ((\<lambda>c. path (file c)) ` set (lastChanges st))"
      using autoLinkFile_ledger_paths [of st f] by blast
    moreover have "path g \<noteq> path f"
    proof
      assume "path g = path f"
      then have "path f \<in> path ` set files" using g by (metis imageI)
      then show False using Cons.prems(1) by simp
    qed
    moreover have "path g \<notin> (\<lambda>c. path (file c)) ` set (lastChanges st)"
      using g Cons.prems(2) by simp
    ultimately show False by blast
  qed
  with Cons show ?case
    by (simp add: autoLinkFile_restore)
qed

lemma autoLinkFile_ledger_prefix: "prefix (lastChanges st) (lastChanges (autoLinkFile st f))"
  using autoLinkFile_cases [of st f] by (auto simp: notify_def)

lemma foldl_autoLinkFile_ledger_prefix:
  "prefix (lastChanges st) (lastChanges (foldl autoLinkFile st files))"
proof (induction files arbitrary: st)
  case Nil
  then show ?case by simp
next
  case (Cons f files)
  then show ?case
    using autoLinkFile_ledger_prefix prefix_order.trans by fastforce
qed

lemma extendLinkingToDirectory_fields:
  "lastChanges (extendLinkingToDirectory st) = lastChanges (foldl autoLinkFile st (directoryFiles st))
   \<and> texts (extendLinkingToDirectory st) = texts (foldl autoLinkFile st (directoryFiles st))"
  by (auto simp: extendLinkingToDirectory_def directoryFiles_def notify_def Let_def
           split: option.splits tabstract.splits)

text \<open>
  \<^verbatim>\<open>extendLinkingToDirectory\<close> never empties \<^verbatim>\<open>lastChanges\<close>: the records it finds
  stay at the front of the ledger.
\<close>

lemma extendLinkingToDirectory_keeps_records:
  "prefix (lastChanges st) (lastChanges (extendLinkingToDirectory st))"
  by (simp add: extendLinkingToDirectory_fields foldl_autoLinkFile_ledger_prefix)

lemma undo_texts: "texts (undoLastChanges st) = restore (texts st) (lastChanges st)"
  by (simp add: undoLastChanges_def notify_def restore_def)

lemma undo_ledger: "lastChanges (undoLastChanges st) = []"
  by (simp add: undoLastChanges_def notify_def)

text \<open>
  C3. The claim: every linking run empties the ledger when it starts, the run over a
  directory as well as the run on the current file. \<^verbatim>\<open>autoLinkCurrentFile\<close> does;
  \<^verbatim>\<open>extendLinkingToDirectory\<close> does not. In the small vault, a run on \<^verbatim>\<open>Log.md\<close>
  followed by a run over \<^verbatim>\<open>notes\<close> leaves the record of the first run in the ledger,
  in front of the two records of the second, and the undo that follows also takes
  \<^verbatim>\<open>Log.md\<close> back to its text from before the first run.
\<close>

theorem directory_run_keeps_ledger:
  "map (\<lambda>c. (path (file c), oldContent c))
       (lastChanges (autoLinkCurrentFile exState))
     = [(''Log.md'', ''Paris again'')]
   \<and> map (\<lambda>c. (path (file c), oldContent c))
       (lastChanges (extendLinkingToDirectory (autoLinkCurrentFile exState)))
     = [(''Log.md'', ''Paris again''),
        (''notes/Trip.md'', ''I visited Paris and Rome.''),
        (''notes/Plan.md'', ''Next: [[Paris]], then Rome.'')]
   \<and> texts (undoLastChanges (extendLinkingToDirectory (autoLinkCurrentFile exState))) ''Log.md''
     = Some ''Paris again''"
  by code_simp

lemma autoLinkCurrentFile_undo: "texts (undoLastChanges (autoLinkCurrentFile st)) = texts st"
proof (cases "activeFile st")
  case None
  then show ?thesis
    by (simp add: undo_texts autoLinkCurrentFile_def notify_def)
next
  case (Some f)
  have "restore (texts (autoLinkFile (st\<lparr>lastChanges := []\<rparr>) f))
          (lastChanges (autoLinkFile (st\<lparr>lastChanges := []\<rparr>) f))
        = restore (texts (st\<lparr>lastChanges := []\<rparr>)) (lastChanges (st\<lparr>lastChanges := []\<rparr>))"
    by (rule autoLinkFile_restore) simp
  with Some show ?thesis
    by (simp add: undo_texts autoLinkCurrentFile_def notify_def Let_def)
qed

lemma extendLinkingToDirectory_undo:
  assumes "lastChanges st = []" and "distinct (map path (directoryFiles st))"
  shows "texts (undoLastChanges (extendLinkingToDirectory st)) = texts st"
proof -
  have "restore (texts (foldl autoLinkFile st (directoryFiles st)))
          (lastChanges (foldl autoLinkFile st (directoryFiles st)))
        = restore (texts st) (lastChanges st)"
    by (rule foldl_autoLinkFile_restore) (simp_all add: assms)
  then show ?thesis
    by (simp add: undo_texts extendLinkingToDirectory_fields assms)
qed

text \<open>
  C4. With an empty ledger, undo only adds the notice that there is nothing to undo:
  no text changes. Otherwise it writes each recorded text back to its document, in the
  order of the records, empties the ledger and reports the number of records; a second
  undo then meets the empty ledger. So an undo right after a run on the current file
  gives back every text of the vault as it was before the run, and so does an undo right
  after a run over a directory that started with an empty ledger, the files of the
  directory having distinct paths.
\<close>

theorem undo_restores:
  "(lastChanges st = [] \<longrightarrow> undoLastChanges st = notify NoChangesToUndo st)
   \<and> (lastChanges st \<noteq> [] \<longrightarrow>
        texts (undoLastChanges st)
          = foldl (\<lambda>sto ch. modify sto (file ch) (oldContent ch)) (texts st) (lastChanges st)
        \<and> lastChanges (undoLastChanges st) = []
        \<and> notices (undoLastChanges st) = notices st @ [UndidChanges (length (lastChanges st))])
   \<and> undoLastChanges (undoLastChanges st) = notify NoChangesToUndo (undoLastChanges st)
   \<and> texts (undoLastChanges (autoLinkCurrentFile st)) = texts st
   \<and> (lastChanges st = [] \<and> distinct (map path (directoryFiles st)) \<longrightarrow>
        texts (undoLastChanges (extendLinkingToDirectory st)) = texts st)"
proof (intro conjI impI)
  show "undoLastChanges (undoLastChanges st) = notify NoChangesToUndo (undoLastChanges st)"
    by (simp add: undoLastChanges_def notify_def)
  show "texts (undoLastChanges (autoLinkCurrentFile st)) = texts st"
    by (rule autoLinkCurrentFile_undo)
next
  assume "lastChanges st = [] \<and> distinct (map path (directoryFiles st))"
  then show "texts (undoLastChanges (extendLinkingToDirectory st)) = texts st"
    by (simp add: extendLinkingToDirectory_undo)
qed (simp_all add: undoLastChanges_def notify_def)

text \<open>
  In the small vault the run over \<^verbatim>\<open>notes\<close> rewrites two documents; the undo gives
  back all texts, and a second undo finds the ledger empty.
\<close>

theorem undo_restores_witness:
  "map (\<lambda>c. path (file c)) (lastChanges (extendLinkingToDirectory exState))
     = [''notes/Trip.md'', ''notes/Plan.md'']
   \<and> texts (extendLinkingToDirectory exState) ''notes/Trip.md''
     = Some ''I visited [[Paris]] and [[Rome]].''
   \<and> texts (extendLinkingToDirectory exState) ''notes/Plan.md''
     = Some ''Next: [[Paris]], then [[Rome]].''
   \<and> texts (undoLastChanges (extendLinkingToDirectory exState)) = texts exState
   \<and> undoLastChanges (undoLastChanges (extendLinkingToDirectory exState))
     = notify NoChangesToUndo (undoLastChanges (extendLinkingToDirectory exState))"
proof -
  have h: "lastChanges exState = [] \<and> distinct (map path (directoryFiles exState))"
    by code_simp
  have e: "map (\<lambda>c. path (file c)) (lastChanges (extendLinkingToDirectory exState))
             = [''notes/Trip.md'', ''notes/Plan.md'']
           \<and> texts (extendLinkingToDirectory exState) ''notes/Trip.md''
             = Some ''I visited [[Paris]] and [[Rome]].''
           \<and> texts (extendLinkingToDirectory exState) ''notes/Plan.md''
             = Some ''Next: [[Paris]], then [[Rome]].''"
    by code_simp
  show ?thesis
    using h e undo_restores [of "exState"] undo_restores [of "extendLinkingToDirectory exState"]
    by blast
qed





text \<open>
  In the small vault: after a run on \<^verbatim>\<open>Log.md\<close> and a removal of the links to
  \<^verbatim>\<open>Paris\<close> in \<^verbatim>\<open>notes\<close>, the undo takes \<^verbatim>\<open>Log.md\<close> back and leaves the removal in
  \<^verbatim>\<open>notes/Plan.md\<close> in place.
\<close>

lemma removal_then_undo_example:
  "texts (stateAfter (removeLinksFromDirectory (autoLinkCurrentFile exState))) ''notes/Plan.md''
     = Some ''Next: Paris, then Rome.''
   \<and> texts (undoLastChanges (stateAfter (removeLinksFromDirectory (autoLinkCurrentFile exState))))
        ''notes/Plan.md'' = Some ''Next: Paris, then Rome.''
   \<and> texts (undoLastChanges (stateAfter (removeLinksFromDirectory (autoLinkCurrentFile exState))))
        ''Log.md'' = Some ''Paris again''"
  by code_simp

end
